theory Spec2Isabelle
  imports Main "HOL-Library.Word" "HOL-Library.Signed_Division"
begin

unbundle bit_operations_syntax

section \<open>The sieve of package \<open>sieve\<close> (sieve.go)\<close>

text \<open>
  A shallow embedding of \<^verbatim>\<open>sieve.go\<close>. Go's \<^verbatim>\<open>int\<close> has 64 bits, as on every platform
  where a sieve of a size above \<open>2 ^ 31\<close> is built. Its values are integers of type
  \<^typ>\<open>int\<close>. The products that the queries compute from the size and from their
  argument, \<^verbatim>\<open>sieve.size*sieve.size\<close>, \<^verbatim>\<open>(root+1)*(root+1)\<close>, \<^verbatim>\<open>root*root\<close> and \<^verbatim>\<open>d*d\<close>,
  leave 64 bits from the size 3037000500 on, whose table has 380 megabytes: they are
  wrapped to 64 bits (\<open>mul_int\<close>). The sums, and the products \<^verbatim>\<open>i*i\<close> and \<^verbatim>\<open>3*i\<close> of
  \<^verbatim>\<open>New\<close>, are those of loop counters that the size bounds: they leave 64 bits only for
  a size within \<open>2 ^ 34\<close> of \<open>2 ^ 63\<close>, whose table of \<open>2 ^ 60\<close> bytes no machine
  holds, and are exact; so are the products \<^verbatim>\<open>m *= count + 1\<close> of \<^verbatim>\<open>DivisorCount\<close>,
  numbers of divisors of its argument. The table's \<^verbatim>\<open>word\<close> (\<^verbatim>\<open>uint8\<close>) is \<^typ>\<open>8 word\<close>, with the
  shifts and masks of the source. Go's \<^verbatim>\<open>/\<close> and \<^verbatim>\<open>%\<close> truncate towards zero: they are
  \<open>sdiv\<close> and \<open>smod\<close>; \<^verbatim>\<open>>>\<close> on \<^verbatim>\<open>int\<close> is the arithmetic shift \<^const>\<open>drop_bit\<close>,
  \<^verbatim>\<open>&\<close> is \<open>AND\<close>.

  A run-time panic is a value of type \<open>error\<close>: indexing a slice out of range, and
  \<^verbatim>\<open>make\<close> with a negative length. Every divisor in the package is a loop counter that
  starts at 3 and grows, or the constant 2 or 8, so no division panics.

  Loops are recursive functions named after the function they belong to. The loops
  whose termination is not plain from their own text (striking the multiples of \<open>i\<close>,
  dividing out \<open>d\<close>, and the square root, whose squares wrap) are partial functions
  into \<open>option\<close>, where \<open>None\<close> stands for a loop that never ends, and so are the
  functions that run them; that they end is part of what is proved.
\<close>

subsection \<open>Data\<close>

datatype error = IndexOutOfRange | MakesliceLenOutOfRange

text \<open>The 64-bit two's complement value of an integer, and Go's \<^verbatim>\<open>*\<close> on \<^verbatim>\<open>int\<close>.\<close>

definition int64 :: "int \<Rightarrow> int" where
  "int64 x = signed_take_bit 63 x"

definition mul_int :: "int \<Rightarrow> int \<Rightarrow> int" where
  "mul_int a b = int64 (a * b)"

definition wordBitsLog2 :: nat where
  "wordBitsLog2 = 3"

definition wordBits :: int where
  "wordBits = push_bit wordBitsLog2 1"

definition wordMask :: int where
  "wordMask = wordBits - 1"

record Sieve =
  size_sieve :: int
  count_sieve :: int
  table_sieve :: "8 word list"

record Unique =
  Factor_u :: int
  Count_u :: int

subsection \<open>Bit storage\<close>

definition bit_sieve :: "Sieve \<Rightarrow> int \<Rightarrow> error + 8 word" where
  "bit_sieve sieve index =
     (let w = drop_bit (1 + wordBitsLog2) index in
      if 0 \<le> w \<and> w < int (length (table_sieve sieve))
      then Inr (drop_bit (nat (drop_bit 1 index AND wordMask)) (table_sieve sieve ! nat w) AND 1)
      else Inl IndexOutOfRange)"

definition setBit :: "Sieve \<Rightarrow> int \<Rightarrow> error + Sieve" where
  "setBit sieve index =
     (let w = drop_bit (1 + wordBitsLog2) index in
      if 0 \<le> w \<and> w < int (length (table_sieve sieve))
      then Inr (sieve\<lparr>table_sieve := (table_sieve sieve)
                  [nat w := (table_sieve sieve ! nat w)
                             OR push_bit (nat (drop_bit 1 index AND wordMask)) 1]\<rparr>)
      else Inl IndexOutOfRange)"

subsection \<open>New\<close>

text \<open>The inner loop of \<^verbatim>\<open>New\<close>: \<^verbatim>\<open>for j := 3 * i; j <= sieve.size; j += i + i\<close>.\<close>

partial_function (option) New_strike :: "Sieve \<Rightarrow> int \<Rightarrow> int \<Rightarrow> (error + Sieve) option" where
  "New_strike sieve i j =
     (if j \<le> size_sieve sieve
      then (case setBit sieve j of
              Inl e \<Rightarrow> Some (Inl e)
            | Inr sieve' \<Rightarrow> New_strike sieve' i (j + (i + i)))
      else Some (Inr sieve))"

declare New_strike.simps [code]

text \<open>The outer loop: \<^verbatim>\<open>for i := 3; i*i <= sieve.size; i += 2\<close>.\<close>

partial_function (option) New_loop :: "Sieve \<Rightarrow> int \<Rightarrow> (error + Sieve) option" where
  "New_loop sieve i =
     (if i * i \<le> size_sieve sieve
      then (case bit_sieve sieve i of
              Inl e \<Rightarrow> Some (Inl e)
            | Inr b \<Rightarrow>
                if b = 0
                then (case New_strike sieve i (3 * i) of
                        None \<Rightarrow> None
                      | Some (Inl e) \<Rightarrow> Some (Inl e)
                      | Some (Inr sieve') \<Rightarrow> New_loop sieve' (i + 2))
                else New_loop sieve (i + 2))
      else Some (Inr sieve))"

declare New_loop.simps [code]

definition New :: "int \<Rightarrow> (error + Sieve) option" where
  "New sz =
     (let len = 1 + (sz + wordBits - 1) sdiv wordBits in
      if len < 0 then Some (Inl MakesliceLenOutOfRange)
      else New_loop \<lparr>size_sieve = sz, count_sieve = 0,
                      table_sieve = replicate (nat len) 0\<rparr> 3)"

subsection \<open>Count\<close>

function Count_loop :: "Sieve \<Rightarrow> int \<Rightarrow> error + Sieve" where
  "Count_loop sieve i =
     (if i \<le> size_sieve sieve
      then (case bit_sieve sieve i of
              Inl e \<Rightarrow> Inl e
            | Inr b \<Rightarrow>
                Count_loop (if b = 0 then sieve\<lparr>count_sieve := count_sieve sieve + 1\<rparr>
                            else sieve) (i + 2))
      else Inr sieve)"
  by pat_completeness auto
termination
  by (relation "measure (\<lambda>(sieve, i). nat (size_sieve sieve + 1 - i))") auto

declare Count_loop.simps [simp del]

text \<open>\<^verbatim>\<open>Count\<close> writes the field \<^verbatim>\<open>count\<close>: it returns its result and the sieve after it.\<close>

definition Count :: "Sieve \<Rightarrow> error + int \<times> Sieve" where
  "Count sieve =
     (if count_sieve sieve = 0
      then (case Count_loop (if size_sieve sieve \<ge> 2 then sieve\<lparr>count_sieve := 1\<rparr>
                             else sieve) 3 of
              Inl e \<Rightarrow> Inl e
            | Inr sieve' \<Rightarrow> Inr (count_sieve sieve', sieve'))
      else Inr (count_sieve sieve, sieve))"

subsection \<open>Prime\<close>

text \<open>
  \<^verbatim>\<open>for (root+1)*(root+1) <= n { root++ }\<close>. The product wraps from \<open>root + 1 = 3037000500\<close>
  on, to a number that may again be at most \<open>n\<close>.
\<close>

partial_function (option) Prime_root :: "int \<Rightarrow> int \<Rightarrow> int option" where
  "Prime_root n root =
     (if mul_int (root + 1) (root + 1) \<le> n then Prime_root n (root + 1) else Some root)"

declare Prime_root.simps [code]

text \<open>\<^verbatim>\<open>for d := 3; d <= root; d += 2\<close>\<close>

function Prime_trial :: "Sieve \<Rightarrow> int \<Rightarrow> int \<Rightarrow> int \<Rightarrow> error + bool" where
  "Prime_trial sieve n root d =
     (if d \<le> root
      then (case bit_sieve sieve d of
              Inl e \<Rightarrow> Inl e
            | Inr b \<Rightarrow>
                if b = 0 \<and> n smod d = 0 then Inr False
                else Prime_trial sieve n root (d + 2))
      else Inr True)"
  by pat_completeness auto
termination
  by (relation "measure (\<lambda>(sieve, n, root, d). nat (root + 1 - d))") auto

declare Prime_trial.simps [simp del]

definition Prime :: "Sieve \<Rightarrow> int \<Rightarrow> (error + bool) option" where
  "Prime sieve n =
     (if n < 2 then Some (Inr False)
      else if n = 2 then Some (Inr True)
      else if n AND 1 = 0 then Some (Inr False)
      else if n \<le> size_sieve sieve then
        (if n = 2 then Some (Inr True)
         else if n > 2 \<and> n \<le> size_sieve sieve \<and> n AND 1 = 1
         then (case bit_sieve sieve n of
                 Inl e \<Rightarrow> Some (Inl e)
               | Inr b \<Rightarrow> Some (Inr (b = 0)))
         else Some (Inr False))
      else if n \<le> mul_int (size_sieve sieve) (size_sieve sieve) then
        (case Prime_root n 1 of
           None \<Rightarrow> None
         | Some root \<Rightarrow>
             if mul_int root root = n then Some (Inr False)
             else Some (Prime_trial sieve n root 3))
      else Some (Inr False))"

subsection \<open>Factor\<close>

text \<open>\<^verbatim>\<open>for n > 1 && n%2 == 0 { result = append(result, 2); n >>= 1 }\<close>\<close>

function Factor_twos :: "int \<Rightarrow> int list \<Rightarrow> int \<times> int list" where
  "Factor_twos n result =
     (if n > 1 \<and> n smod 2 = 0 then Factor_twos (drop_bit 1 n) (result @ [2])
      else (n, result))"
  by pat_completeness auto
termination
  by (relation "measure (\<lambda>(n, result). nat n)") (auto simp: drop_bit_eq_div)

declare Factor_twos.simps [simp del]

text \<open>\<^verbatim>\<open>for n > 1 && n%d == 0 { result = append(result, d); n /= d }\<close>\<close>

partial_function (option) Factor_strip :: "int \<Rightarrow> int \<Rightarrow> int list \<Rightarrow> (int \<times> int list) option" where
  "Factor_strip d n result =
     (if n > 1 \<and> n smod d = 0 then Factor_strip d (n sdiv d) (result @ [d])
      else Some (n, result))"

declare Factor_strip.simps [code]

text \<open>\<^verbatim>\<open>for d := 3; d < sieve.size && d*d <= n; d += 2\<close>\<close>

partial_function (option) Factor_loop ::
  "Sieve \<Rightarrow> int \<Rightarrow> int \<Rightarrow> int list \<Rightarrow> (error + int \<times> int list) option" where
  "Factor_loop sieve d n result =
     (if d < size_sieve sieve \<and> mul_int d d \<le> n
      then (case Prime sieve d of
              None \<Rightarrow> None
            | Some (Inl e) \<Rightarrow> Some (Inl e)
            | Some (Inr p) \<Rightarrow>
                if p
                then (case Factor_strip d n result of
                        None \<Rightarrow> None
                      | Some (n', result') \<Rightarrow> Factor_loop sieve (d + 2) n' result')
                else Factor_loop sieve (d + 2) n result)
      else Some (Inr (n, result)))"

declare Factor_loop.simps [code]

definition Factor :: "Sieve \<Rightarrow> int \<Rightarrow> (error + int list) option" where
  "Factor sieve n =
     (if mul_int (size_sieve sieve) (size_sieve sieve) < n then Some (Inr [])
      else if n \<le> 3 then Some (Inr [n])
      else (case Factor_twos n [] of
              (n1, result1) \<Rightarrow>
                (case Factor_loop sieve 3 n1 result1 of
                   None \<Rightarrow> None
                 | Some (Inl e) \<Rightarrow> Some (Inl e)
                 | Some (Inr (n2, result2)) \<Rightarrow>
                     Some (Inr (if n2 > 1 then result2 @ [n2] else result2)))))"

subsection \<open>FactorUnique and DivisorCount\<close>

text \<open>
  The two counting loops are written twice in the source, in \<^verbatim>\<open>FactorUnique\<close> and in
  \<^verbatim>\<open>DivisorCount\<close>, with the same text:
  \<^verbatim>\<open>for n > 1 && n%2 == 0 { n >>= 1; count++ }\<close> and
  \<^verbatim>\<open>for n > 1 && n%d == 0 { n /= d; count++ }\<close>.
\<close>

function count_twos :: "int \<Rightarrow> int \<Rightarrow> int \<times> int" where
  "count_twos n count =
     (if n > 1 \<and> n smod 2 = 0 then count_twos (drop_bit 1 n) (count + 1)
      else (n, count))"
  by pat_completeness auto
termination
  by (relation "measure (\<lambda>(n, count). nat n)") (auto simp: drop_bit_eq_div)

declare count_twos.simps [simp del]

partial_function (option) count_strip :: "int \<Rightarrow> int \<Rightarrow> int \<Rightarrow> (int \<times> int) option" where
  "count_strip d n count =
     (if n > 1 \<and> n smod d = 0 then count_strip d (n sdiv d) (count + 1)
      else Some (n, count))"

declare count_strip.simps [code]

partial_function (option) FactorUnique_loop ::
  "Sieve \<Rightarrow> int \<Rightarrow> int \<Rightarrow> Unique list \<Rightarrow> (error + int \<times> Unique list) option" where
  "FactorUnique_loop sieve d n result =
     (if d < size_sieve sieve \<and> mul_int d d \<le> n
      then (case Prime sieve d of
              None \<Rightarrow> None
            | Some (Inl e) \<Rightarrow> Some (Inl e)
            | Some (Inr p) \<Rightarrow>
                if p
                then (if n > 1 \<and> n smod d = 0
                      then (case count_strip d n 0 of
                              None \<Rightarrow> None
                            | Some (n', count) \<Rightarrow>
                                FactorUnique_loop sieve (d + 2) n'
                                  (result @ [\<lparr>Factor_u = d, Count_u = count\<rparr>]))
                      else FactorUnique_loop sieve (d + 2) n result)
                else FactorUnique_loop sieve (d + 2) n result)
      else Some (Inr (n, result)))"

declare FactorUnique_loop.simps [code]

definition FactorUnique :: "Sieve \<Rightarrow> int \<Rightarrow> (error + Unique list) option" where
  "FactorUnique sieve n =
     (if mul_int (size_sieve sieve) (size_sieve sieve) < n then Some (Inr [])
      else if n \<le> 3 then Some (Inr [\<lparr>Factor_u = n, Count_u = 1\<rparr>])
      else (case (if n > 1 \<and> n smod 2 = 0
                  then (case count_twos n 0 of
                          (n1, count) \<Rightarrow> (n1, [\<lparr>Factor_u = 2, Count_u = count\<rparr>]))
                  else (n, [])) of
              (n1, result1) \<Rightarrow>
                (case FactorUnique_loop sieve 3 n1 result1 of
                   None \<Rightarrow> None
                 | Some (Inl e) \<Rightarrow> Some (Inl e)
                 | Some (Inr (n2, result2)) \<Rightarrow>
                     Some (Inr (if n2 > 1 then result2 @ [\<lparr>Factor_u = n2, Count_u = 1\<rparr>]
                                else result2)))))"

partial_function (option) DivisorCount_loop ::
  "Sieve \<Rightarrow> int \<Rightarrow> int \<Rightarrow> int \<Rightarrow> (error + int \<times> int) option" where
  "DivisorCount_loop sieve d n m =
     (if d < size_sieve sieve \<and> mul_int d d \<le> n
      then (case Prime sieve d of
              None \<Rightarrow> None
            | Some (Inl e) \<Rightarrow> Some (Inl e)
            | Some (Inr p) \<Rightarrow>
                if p
                then (if n > 1 \<and> n smod d = 0
                      then (case count_strip d n 0 of
                              None \<Rightarrow> None
                            | Some (n', count) \<Rightarrow>
                                DivisorCount_loop sieve (d + 2) n' (m * (count + 1)))
                      else DivisorCount_loop sieve (d + 2) n m)
                else DivisorCount_loop sieve (d + 2) n m)
      else Some (Inr (n, m)))"

declare DivisorCount_loop.simps [code]

definition DivisorCount :: "Sieve \<Rightarrow> int \<Rightarrow> (error + int) option" where
  "DivisorCount sieve n =
     (if mul_int (size_sieve sieve) (size_sieve sieve) < n then Some (Inr 0)
      else if n = 1 then Some (Inr 1)
      else (case (if n > 1 \<and> n smod 2 = 0
                  then (case count_twos n 0 of (n1, count) \<Rightarrow> (n1, 1 * (count + 1)))
                  else (n, 1)) of
              (n1, m1) \<Rightarrow>
                (case DivisorCount_loop sieve 3 n1 m1 of
                   None \<Rightarrow> None
                 | Some (Inl e) \<Rightarrow> Some (Inl e)
                 | Some (Inr (n2, m2)) \<Rightarrow>
                     Some (Inr (if n2 > 1 then m2 * (1 + 1) else m2)))))"

subsection \<open>SquareFree\<close>

text \<open>\<^verbatim>\<open>for i := 0; i < len(f)-1; i++ { if f[i] == f[i+1] { return false } }\<close>\<close>

function SquareFree_loop :: "int list \<Rightarrow> int \<Rightarrow> error + bool" where
  "SquareFree_loop f i =
     (if i < int (length f) - 1
      then (if 0 \<le> i
            then (if f ! nat i = f ! nat (i + 1) then Inr False
                  else SquareFree_loop f (i + 1))
            else Inl IndexOutOfRange)
      else Inr True)"
  by pat_completeness auto
termination
  by (relation "measure (\<lambda>(f, i). nat (int (length f) - i))") auto

declare SquareFree_loop.simps [simp del]

definition SquareFree :: "Sieve \<Rightarrow> int \<Rightarrow> (error + bool) option" where
  "SquareFree sieve n =
     (if mul_int (size_sieve sieve) (size_sieve sieve) < n then Some (Inr False)
      else (case Factor sieve n of
              None \<Rightarrow> None
            | Some (Inl e) \<Rightarrow> Some (Inl e)
            | Some (Inr f) \<Rightarrow> Some (SquareFree_loop f 0)))"

subsection \<open>NthPrime\<close>

text \<open>\<^verbatim>\<open>for value, count := 3, 1; value <= sieve.size; value += 2\<close>\<close>

function NthPrime_loop :: "Sieve \<Rightarrow> int \<Rightarrow> int \<Rightarrow> int \<Rightarrow> (error + int) option" where
  "NthPrime_loop sieve n value count =
     (if value \<le> size_sieve sieve
      then (case Prime sieve value of
              None \<Rightarrow> None
            | Some (Inl e) \<Rightarrow> Some (Inl e)
            | Some (Inr p) \<Rightarrow>
                if p
                then (if count + 1 = n then Some (Inr value)
                      else NthPrime_loop sieve n (value + 2) (count + 1))
                else NthPrime_loop sieve n (value + 2) count)
      else Some (Inr 0))"
  by pat_completeness auto
termination
  by (relation "measure (\<lambda>(sieve, n, value, count). nat (size_sieve sieve + 1 - value))") auto

declare NthPrime_loop.simps [simp del]

definition NthPrime :: "Sieve \<Rightarrow> int \<Rightarrow> (error + int) option" where
  "NthPrime sieve n = (if n = 1 then Some (Inr 2) else NthPrime_loop sieve n 3 1)"

subsection \<open>A query on a new sieve\<close>

text \<open>
  What the package's examples do: build a sieve and call one of its methods,
  \<^verbatim>\<open>New(size).f(n)\<close>. A panic of \<^verbatim>\<open>New\<close> ends the program before the call.
\<close>

definition New_query ::
  "int \<Rightarrow> (Sieve \<Rightarrow> int \<Rightarrow> (error + 'a) option) \<Rightarrow> int \<Rightarrow> (error + 'a) option" where
  "New_query sz f n =
     (case New sz of
        None \<Rightarrow> None
      | Some (Inl e) \<Rightarrow> Some (Inl e)
      | Some (Inr sieve) \<Rightarrow> f sieve n)"

section \<open>What the results are compared with\<close>

text \<open>A prime is an integer above 1 that no integer strictly between 1 and itself divides.\<close>

definition is_prime :: "int \<Rightarrow> bool" where
  "is_prime n = (1 < n \<and> (\<forall>d \<in> {2..<n}. \<not> d dvd n))"

text \<open>
  What the proofs keep track of. The table is long enough for every index up to the
  size; \<open>k\<close> has a divisor from 3 up to, but not including, \<open>i\<close>, other than itself,
  which is what the construction loop has struck when it reaches \<open>i\<close>; the table is
  complete: for every odd \<open>k\<close> from 3 to the size, the bit of \<open>k\<close> is set exactly when
  \<open>k\<close> is not a prime.
\<close>

definition in_bounds :: "Sieve \<Rightarrow> bool" where
  "in_bounds sieve \<longleftrightarrow> size_sieve sieve div 16 < int (length (table_sieve sieve))"

definition struck_below :: "int \<Rightarrow> int \<Rightarrow> bool" where
  "struck_below i k \<longleftrightarrow> (\<exists>d \<in> {3..<i}. d < k \<and> d dvd k)"

definition sieved :: "Sieve \<Rightarrow> bool" where
  "sieved sieve \<longleftrightarrow> in_bounds sieve \<and>
     (\<forall>k. odd k \<and> 3 \<le> k \<and> k \<le> size_sieve sieve
          \<longrightarrow> bit_sieve sieve k = Inr (if is_prime k then 0 else 1))"

text \<open>The number of primes up to \<open>n\<close>.\<close>

definition prime_count :: "int \<Rightarrow> int" where
  "prime_count n = int (length (filter is_prime [2..n]))"

text \<open>A list of pairs, each expanded into \<open>Count\<close> copies of its \<open>Factor\<close>.\<close>

definition expand :: "Unique list \<Rightarrow> int list" where
  "expand us = concat (map (\<lambda>u. replicate (nat (Count_u u)) (Factor_u u)) us)"

text \<open>No number from 2 up to, but not including, \<open>d\<close> divides \<open>n\<close>.\<close>

definition no_divisor_below :: "int \<Rightarrow> int \<Rightarrow> bool" where
  "no_divisor_below d n \<longleftrightarrow> (\<forall>q \<in> {2..<d}. \<not> q dvd n)"

text \<open>
  None of \<open>d\<close>, \<open>d + 2\<close>, \<open>d + 4\<close>, ... up to \<open>e\<close> divides \<open>n\<close>: a check by division,
  by which a given number is shown to be prime.
\<close>

function no_odd_divisor :: "int \<Rightarrow> int \<Rightarrow> int \<Rightarrow> bool" where
  "no_odd_divisor n d e =
     (if e < d then True
      else if n mod d = 0 then False
      else no_odd_divisor n (d + 2) e)"
  by pat_completeness auto

termination
  by (relation "measure (\<lambda>(n, d, e). nat (e + 1 - d))") auto

declare no_odd_divisor.simps [simp del]

section \<open>Bit storage: the table as a set of marked numbers\<close>

lemma wordBits_eq: "wordBits = 8" "wordMask = 7" "wordBitsLog2 = 3"
  by (simp_all add: wordBits_def wordMask_def wordBitsLog2_def)

lemma and_7_eq: "(k::int) AND 7 = k mod 8"
proof -
  have "k AND mask 3 = k mod 2 ^ 3"
    by (simp only: take_bit_eq_mask [symmetric] take_bit_eq_mod)
  then show ?thesis by (simp add: mask_eq_exp_minus_1)
qed

lemma word_index: "drop_bit (1 + wordBitsLog2) (k::int) = k div 16"
  unfolding wordBits_eq by (simp add: drop_bit_eq_div)

lemma bit_index: "drop_bit 1 (k::int) AND wordMask = k div 2 mod 8"
  unfolding wordBits_eq by (simp add: and_7_eq drop_bit_eq_div)

lemma test_bit_word: "drop_bit n (w :: 8 word) AND 1 = of_bool (bit w n)"
  by (simp add: and_one_eq bit_iff_odd_drop_bit mod_2_eq_odd)

lemma word_index_nonneg: "0 \<le> (k::int) div 16 \<longleftrightarrow> 0 \<le> k"
  by (simp add: pos_imp_zdiv_nonneg_iff)

lemma bit_sieve_eq:
  "bit_sieve sieve k =
     (if 0 \<le> k \<and> k div 16 < int (length (table_sieve sieve))
      then Inr (of_bool (bit (table_sieve sieve ! nat (k div 16)) (nat (k div 2 mod 8))))
      else Inl IndexOutOfRange)"
  unfolding bit_sieve_def Let_def word_index bit_index test_bit_word word_index_nonneg
  by (rule refl)

lemma setBit_eq:
  "setBit sieve k =
     (if 0 \<le> k \<and> k div 16 < int (length (table_sieve sieve))
      then Inr (sieve\<lparr>table_sieve := (table_sieve sieve)
                 [nat (k div 16) := (table_sieve sieve ! nat (k div 16))
                                     OR push_bit (nat (k div 2 mod 8)) 1]\<rparr>)
      else Inl IndexOutOfRange)"
  unfolding setBit_def Let_def word_index bit_index word_index_nonneg
  by (rule refl)

lemma bit_or_push_1: "bit ((w :: 8 word) OR 2 ^ b) c \<longleftrightarrow> bit w c \<or> (c = b \<and> b < 8)"
  by (auto simp: bit_or_iff bit_exp_iff)

lemma div_16_eq: "(k::int) div 16 = k div 2 div 8"
  by (simp add: zdiv_zmult2_eq [symmetric])

lemma same_slot_iff:
  "(k div 16 = j div 16 \<and> k div 2 mod 8 = j div 2 mod 8) \<longleftrightarrow> k div 2 = (j::int) div 2"
  unfolding div_16_eq by (metis div_mult_mod_eq)

lemma setBit_result:
  assumes "0 \<le> j" "j div 16 < int (length (table_sieve sieve))"
  shows "\<exists>sieve'. setBit sieve j = Inr sieve'
           \<and> size_sieve sieve' = size_sieve sieve \<and> count_sieve sieve' = count_sieve sieve
           \<and> length (table_sieve sieve') = length (table_sieve sieve)
           \<and> (\<forall>k\<ge>0. bit_sieve sieve' k =
                 (if k div 2 = j div 2 then Inr 1 else bit_sieve sieve k))"
proof -
  let ?s = "sieve\<lparr>table_sieve := (table_sieve sieve)
                 [nat (j div 16) := (table_sieve sieve ! nat (j div 16))
                                     OR push_bit (nat (j div 2 mod 8)) 1]\<rparr>"
  have 1: "setBit sieve j = Inr ?s"
    using assms by (simp add: setBit_eq)
  have 2: "bit_sieve ?s k = (if k div 2 = j div 2 then Inr 1 else bit_sieve sieve k)"
    if "0 \<le> k" for k
  proof (cases "k div 16 < int (length (table_sieve sieve))")
    case False
    moreover from False assms have "k div 2 \<noteq> j div 2" by (auto simp: div_16_eq)
    ultimately show ?thesis by (simp add: bit_sieve_eq)
  next
    case inr: True
    have nat_eq: "nat (k div 16) = nat (j div 16) \<longleftrightarrow> k div 16 = j div 16"
      using that assms by (simp add: nat_eq_iff word_index_nonneg)
    have nat_eq': "nat (k div 2 mod 8) = nat (j div 2 mod 8) \<longleftrightarrow> k div 2 mod 8 = j div 2 mod 8"
      by (simp add: nat_eq_iff)
    have lt8: "nat (j div 2 mod 8) < 8" by simp
    show ?thesis
    proof (cases "k div 16 = j div 16")
      case True
      have slot: "k div 2 mod 8 = j div 2 mod 8 \<longleftrightarrow> k div 2 = j div 2"
        using same_slot_iff [of k j] True by simp
      have "bit_sieve ?s k = Inr (of_bool (bit (table_sieve sieve ! nat (j div 16)) (nat (k div 2 mod 8))
               \<or> k div 2 = j div 2))"
        using inr that True
        by (simp add: bit_sieve_eq bit_or_push_1 nat_eq' slot lt8)
      moreover have "bit_sieve sieve k = Inr (of_bool (bit (table_sieve sieve ! nat (j div 16)) (nat (k div 2 mod 8))))"
        using inr that True by (simp add: bit_sieve_eq)
      ultimately show ?thesis by simp
    next
      case False
      then have "k div 2 \<noteq> j div 2" by (auto simp: div_16_eq)
      moreover from False have "nat (j div 16) \<noteq> nat (k div 16)"
        using nat_eq by auto
      ultimately show ?thesis
        using inr that by (simp add: bit_sieve_eq)
    qed
  qed
  show ?thesis
    unfolding 1 by (intro exI [of _ ?s] conjI refl allI impI) (simp, simp, simp, rule 2)
qed

section \<open>Arithmetic of the source\<close>

lemma sdiv_nonneg: "0 \<le> a \<Longrightarrow> 0 < b \<Longrightarrow> (a::int) sdiv b = a div b"
  by (simp add: signed_divide_int_def sgn_if)

lemma smod_nonneg: "0 \<le> a \<Longrightarrow> 0 < b \<Longrightarrow> (a::int) smod b = a mod b"
  by (simp add: signed_modulo_int_def sgn_if)

lemma smod_eq_0_iff: "0 \<le> n \<Longrightarrow> 0 < d \<Longrightarrow> n smod d = 0 \<longleftrightarrow> d dvd (n::int)"
  by (simp add: smod_nonneg dvd_eq_mod_eq_0)

lemma and_1_eq_0_iff: "(n::int) AND 1 = 0 \<longleftrightarrow> even n"
  by (simp add: and_one_eq mod_2_eq_odd)

lemma and_1_eq_1_iff: "(n::int) AND 1 = 1 \<longleftrightarrow> odd n"
  by (simp add: and_one_eq mod_2_eq_odd)

lemma self_le_square: "(i::int) \<le> i * i"
  by (cases "0 \<le> i") (simp_all add: mult_le_cancel_left1 order_trans [OF _ zero_le_square])

lemma square_le_imp_le:
  assumes "a * a \<le> b * b" "0 \<le> b"
  shows "a \<le> (b::int)"
proof (rule ccontr)
  assume "\<not> a \<le> b"
  with assms(2) have "b * b < a * a" by (intro mult_strict_mono) simp_all
  with assms(1) show False by simp
qed

text \<open>A product that fits 64 bits is exact; a wrapped square is never above the square.\<close>

lemma int64_eq: "- (2 ^ 63) \<le> x \<Longrightarrow> x < 2 ^ 63 \<Longrightarrow> int64 x = x"
  by (simp add: int64_def signed_take_bit_int_eq_self)

lemma int64_le: "0 \<le> x \<Longrightarrow> int64 x \<le> x"
  by (simp add: int64_def signed_take_bit_int_less_eq_self_iff)

lemma mul_int_self_le: "mul_int a a \<le> a * a"
  unfolding mul_int_def by (rule int64_le) simp

lemma mul_int_exact:
  assumes "\<bar>a\<bar> \<le> 3037000499" "\<bar>b\<bar> \<le> 3037000499"
  shows "mul_int a b = a * b"
proof -
  from assms have "\<bar>a\<bar> * \<bar>b\<bar> \<le> 3037000499 * 3037000499" by (intro mult_mono) simp_all
  then have "\<bar>a * b\<bar> \<le> 9223372030926249001" by (simp add: abs_mult)
  then show ?thesis unfolding mul_int_def by (intro int64_eq) simp_all
qed

lemma square_less_imp_less:
  assumes "r * r \<le> n" "n < b * b" "0 \<le> (b::int)"
  shows "r < b"
proof (rule ccontr)
  assume "\<not> r < b"
  with assms(3) have "b * b \<le> r * r" by (intro mult_mono) simp_all
  with assms show False by simp
qed

section \<open>Primes\<close>

lemma is_prime_iff: "is_prime n \<longleftrightarrow> 1 < n \<and> (\<forall>d. 1 < d \<and> d < n \<longrightarrow> \<not> d dvd n)"
  by (auto simp: is_prime_def)

lemma least_divisor:
  assumes "1 < (n::int)"
  shows "\<exists>p. is_prime p \<and> p dvd n \<and> (\<forall>d. 1 < d \<and> d dvd n \<longrightarrow> p \<le> d)"
proof -
  from assms have "1 < n \<and> n dvd n" by simp
  from ex_has_least_nat [of "\<lambda>d. 1 < d \<and> d dvd n" n nat, OF this]
  obtain p where p: "1 < p" "p dvd n" "\<And>d. 1 < d \<Longrightarrow> d dvd n \<Longrightarrow> nat p \<le> nat d"
    by blast
  have least: "p \<le> d" if "1 < d" "d dvd n" for d
    using p(3) [OF that] that(1) by simp
  have "\<not> d dvd p" if "1 < d \<and> d < p" for d
  proof
    assume "d dvd p"
    from this p(2) have "d dvd n" by (rule dvd_trans)
    with that least [of d] show False by simp
  qed
  with p(1) have "is_prime p" by (simp add: is_prime_iff)
  with p(2) least show ?thesis by blast
qed

lemma small_prime_divisor:
  assumes "1 < (n::int)" "\<not> is_prime n"
  shows "\<exists>p. is_prime p \<and> p dvd n \<and> p * p \<le> n"
proof -
  from least_divisor [OF assms(1)] obtain p where
    p: "is_prime p" "p dvd n" "\<And>d. 1 < d \<Longrightarrow> d dvd n \<Longrightarrow> p \<le> d" by blast
  from p(2) obtain e where e: "n = p * e" by (auto simp: dvd_def)
  from p(1) have "1 < p" by (simp add: is_prime_iff)
  with e assms(1) have "0 < e" using zero_less_mult_pos [of p e] by simp
  moreover from e p(1) assms(2) have "e \<noteq> 1" by auto
  ultimately have "1 < e" by simp
  moreover have "e dvd n" using e by simp
  ultimately have "p \<le> e" by (rule p(3))
  with \<open>1 < p\<close> have "p * p \<le> p * e" by (intro mult_left_mono) simp_all
  with e p show ?thesis by auto
qed

lemma is_prime_2: "is_prime 2"
  by (simp add: is_prime_def)

lemma is_prime_3: "is_prime 3"
  by code_simp

lemma not_is_prime_even: "even n \<Longrightarrow> n \<noteq> 2 \<Longrightarrow> \<not> is_prime n"
proof
  assume "even n" "n \<noteq> 2" "is_prime n"
  then have "1 < n" "\<not> (1 < (2::int) \<and> 2 < n \<and> 2 dvd n)"
    unfolding is_prime_iff by blast+
  with \<open>even n\<close> \<open>n \<noteq> 2\<close> show False by simp
qed

lemma is_prime_odd: "is_prime n \<Longrightarrow> n \<noteq> 2 \<Longrightarrow> odd n \<and> 3 \<le> n"
  using not_is_prime_even [of n] by (cases "even n") (auto simp: is_prime_iff)

section \<open>New: the construction loop and its invariant\<close>

lemma in_bounds_index: "in_bounds sieve \<Longrightarrow> k \<le> size_sieve sieve \<Longrightarrow> k div 16 < int (length (table_sieve sieve))"
  unfolding in_bounds_def using zdiv_mono1 [of k "size_sieve sieve" 16] by simp

lemma New_strike_result:
  assumes "0 < i" "0 \<le> j" "in_bounds sieve"
  shows "\<exists>sieve'. New_strike sieve i j = Some (Inr sieve')
           \<and> size_sieve sieve' = size_sieve sieve \<and> count_sieve sieve' = count_sieve sieve
           \<and> length (table_sieve sieve') = length (table_sieve sieve)
           \<and> (\<forall>k\<ge>0. bit_sieve sieve' k =
                 (if \<exists>m\<ge>0. j + 2 * i * m \<le> size_sieve sieve \<and> k div 2 = (j + 2 * i * m) div 2
                  then Inr 1 else bit_sieve sieve k))"
  using assms
proof (induction "nat (size_sieve sieve + 1 - j)" arbitrary: sieve j rule: less_induct)
  case less
  show ?case
  proof (cases "j \<le> size_sieve sieve")
    case False
    have noex: "\<not> (\<exists>m\<ge>0. j + 2 * i * m \<le> size_sieve sieve \<and> k div 2 = (j + 2 * i * m) div 2)" for k
    proof
      assume "\<exists>m\<ge>0. j + 2 * i * m \<le> size_sieve sieve \<and> k div 2 = (j + 2 * i * m) div 2"
      then obtain m where "0 \<le> m" "j + 2 * i * m \<le> size_sieve sieve" by blast
      moreover have "0 \<le> 2 * i * m" using \<open>0 < i\<close> \<open>0 \<le> m\<close> by simp
      ultimately show False using False by linarith
    qed
    have res: "New_strike sieve i j = Some (Inr sieve)"
      using False by (subst New_strike.simps) simp
    show ?thesis
      unfolding res by (intro exI [of _ sieve] conjI refl allI impI) (simp only: noex if_False)
  next
    case True
    from less.prems True have "j div 16 < int (length (table_sieve sieve))"
      by (simp add: in_bounds_index)
    with \<open>0 \<le> j\<close> setBit_result [of j sieve] obtain s1 where s1: "setBit sieve j = Inr s1"
      "size_sieve s1 = size_sieve sieve" "count_sieve s1 = count_sieve sieve"
      "length (table_sieve s1) = length (table_sieve sieve)"
      "\<And>k. 0 \<le> k \<Longrightarrow> bit_sieve s1 k = (if k div 2 = j div 2 then Inr 1 else bit_sieve sieve k)"
      by blast
    have "nat (size_sieve s1 + 1 - (j + (i + i))) < nat (size_sieve sieve + 1 - j)"
      using True \<open>0 < i\<close> s1(2) by simp
    moreover have "0 \<le> j + (i + i)" using \<open>0 < i\<close> \<open>0 \<le> j\<close> by simp
    moreover have "in_bounds s1" using \<open>in_bounds sieve\<close> s1 by (simp add: in_bounds_def)
    ultimately obtain s2 where s2: "New_strike s1 i (j + (i + i)) = Some (Inr s2)"
      "size_sieve s2 = size_sieve s1" "count_sieve s2 = count_sieve s1"
      "length (table_sieve s2) = length (table_sieve s1)"
      "\<And>k. 0 \<le> k \<Longrightarrow> bit_sieve s2 k =
                 (if \<exists>m\<ge>0. j + (i + i) + 2 * i * m \<le> size_sieve s1 \<and> k div 2 = (j + (i + i) + 2 * i * m) div 2
                  then Inr 1 else bit_sieve s1 k)"
      using less.hyps [of s1 "j + (i + i)"] \<open>0 < i\<close> by blast
    have ex: "(\<exists>m\<ge>0. j + 2 * i * m \<le> size_sieve sieve \<and> k div 2 = (j + 2 * i * m) div 2)
        \<longleftrightarrow> k div 2 = j div 2 \<or> (\<exists>m\<ge>0. j + (i + i) + 2 * i * m \<le> size_sieve s1 \<and> k div 2 = (j + (i + i) + 2 * i * m) div 2)"
      (is "?L \<longleftrightarrow> ?A \<or> ?R") for k
    proof
      assume ?L
      then obtain m where m: "0 \<le> m" "j + 2 * i * m \<le> size_sieve sieve" "k div 2 = (j + 2 * i * m) div 2"
        by blast
      show "?A \<or> ?R"
      proof (cases "m = 0")
        case True
        with m show ?thesis by simp
      next
        case False
        with m have "0 \<le> m - 1" by simp
        moreover have "j + (i + i) + 2 * i * (m - 1) = j + 2 * i * m"
          by (simp add: algebra_simps)
        ultimately have ?R using m s1(2) by metis
        then show ?thesis ..
      qed
    next
      assume "?A \<or> ?R"
      then show ?L
      proof
        assume ?A
        with True show ?L by (intro exI [of _ 0]) simp
      next
        assume ?R
        then obtain m where m: "0 \<le> m" "j + (i + i) + 2 * i * m \<le> size_sieve s1"
          "k div 2 = (j + (i + i) + 2 * i * m) div 2" by blast
        have "j + (i + i) + 2 * i * m = j + 2 * i * (m + 1)"
          by (simp add: algebra_simps)
        with m s1(2) show ?L by (intro exI [of _ "m + 1"]) simp
      qed
    qed
    have "New_strike sieve i j = Some (Inr s2)"
      using True s1(1) s2(1) by (subst New_strike.simps) simp
    moreover have "bit_sieve s2 k =
                 (if \<exists>m\<ge>0. j + 2 * i * m \<le> size_sieve sieve \<and> k div 2 = (j + 2 * i * m) div 2
                  then Inr 1 else bit_sieve sieve k)" if "0 \<le> k" for k
      unfolding ex using s2(5) [OF that] s1(5) [OF that] by auto
    ultimately show ?thesis
      using s1 s2 by simp
  qed
qed

lemma odd_div_2_eq: "odd (a::int) \<Longrightarrow> odd b \<Longrightarrow> a div 2 = b div 2 \<longleftrightarrow> a = b"
  by (metis odd_two_times_div_two_succ)

lemma odd_multiple_iff:
  assumes "odd (i::int)" "0 < i" "odd (k::int)"
  shows "(\<exists>m\<ge>0. 3 * i + 2 * i * m \<le> sz \<and> k div 2 = (3 * i + 2 * i * m) div 2)
           \<longleftrightarrow> k \<le> sz \<and> i < k \<and> i dvd k" (is "?L \<longleftrightarrow> ?R")
proof
  assume ?L
  then obtain m where m: "0 \<le> m" "3 * i + 2 * i * m \<le> sz" "k div 2 = (3 * i + 2 * i * m) div 2"
    by blast
  have eq: "3 * i + 2 * i * m = i * (3 + 2 * m)" by (simp add: algebra_simps)
  have "odd (3 * i + 2 * i * m)" using \<open>odd i\<close> by simp
  with m(3) \<open>odd k\<close> have k: "k = i * (3 + 2 * m)" by (simp add: odd_div_2_eq eq)
  have "i * 1 < i * (3 + 2 * m)"
    using \<open>0 < i\<close> \<open>0 \<le> m\<close> by (intro mult_strict_left_mono) simp_all
  with k m eq show ?R by simp
next
  assume R: ?R
  then obtain q where q: "k = i * q" by (auto simp: dvd_def)
  with \<open>odd k\<close> have "odd q" by simp
  from R q \<open>0 < i\<close> have "i * 1 < i * q" by simp
  with \<open>0 < i\<close> have "1 < q" by (simp only: mult_less_cancel_left_pos)
  with \<open>odd q\<close> have "3 \<le> q" by presburger
  define m where "m = (q - 3) div 2"
  from \<open>odd q\<close> \<open>3 \<le> q\<close> have "0 \<le> m" "q = 3 + 2 * m"
    unfolding m_def by presburger+
  then have "3 * i + 2 * i * m = k" using q by (simp add: algebra_simps)
  with R \<open>0 \<le> m\<close> show ?L by auto
qed

lemma struck_below_step:
  assumes "odd k" "odd i" "3 \<le> i"
  shows "struck_below (i + 2) k \<longleftrightarrow> struck_below i k \<or> (i < k \<and> i dvd k)"
proof -
  have "{3..<i + 2} = insert (i + 1) (insert i {3..<i})"
    using \<open>3 \<le> i\<close> by auto
  moreover have "\<not> (i + 1) dvd k"
    using \<open>odd k\<close> \<open>odd i\<close> by (metis dvd_trans even_add odd_one)
  ultimately show ?thesis
    by (auto simp: struck_below_def)
qed

lemma struck_below_dvd:
  assumes "struck_below i i" "i dvd k" "i < k"
  shows "struck_below i k"
  using assms unfolding struck_below_def by (meson dvd_trans less_trans)

lemma struck_below_final:
  assumes "odd k" "3 \<le> k" "k < i * i" "0 < i"
  shows "struck_below i k \<longleftrightarrow> \<not> is_prime k"
proof
  assume "struck_below i k"
  then obtain d where "3 \<le> d" "d < k" "d dvd k"
    by (auto simp: struck_below_def)
  then have "1 < d \<and> d < k \<and> d dvd k" by simp
  then show "\<not> is_prime k"
    unfolding is_prime_iff by blast
next
  assume "\<not> is_prime k"
  with \<open>3 \<le> k\<close> obtain d where d: "1 < d" "d < k" "d dvd k"
    by (auto simp: is_prime_iff)
  then obtain e where e: "k = d * e" by (auto simp: dvd_def)
  with d \<open>3 \<le> k\<close> have "0 < e" by (simp add: zero_less_mult_iff)
  moreover from d e have "e \<noteq> 1" by auto
  ultimately have "1 < e" by simp
  from e \<open>odd k\<close> have "odd d" "odd e" by simp_all
  with \<open>1 < d\<close> \<open>1 < e\<close> have "3 \<le> d" "3 \<le> e" by presburger+
  define a where "a = min d e"
  have a: "3 \<le> a" "a dvd k" "a < k" "a * a \<le> k"
  proof -
    show "3 \<le> a" using \<open>3 \<le> d\<close> \<open>3 \<le> e\<close> by (simp add: a_def)
    show "a dvd k" using e by (auto simp: a_def min_def)
    have "e < k" using e \<open>1 < d\<close> \<open>0 < e\<close> by simp
    with \<open>d < k\<close> show "a < k" by (simp add: a_def)
    have "a * a \<le> d * e"
      using \<open>3 \<le> d\<close> \<open>3 \<le> e\<close> by (intro mult_mono) (simp_all add: a_def)
    with e show "a * a \<le> k" by simp
  qed
  have "a < i"
  proof (rule ccontr)
    assume "\<not> a < i"
    then have "i * i \<le> a * a" using \<open>0 < i\<close> by (intro mult_mono) simp_all
    with a(4) assms(3) show False by simp
  qed
  with a show "struck_below i k"
    by (auto simp: struck_below_def)
qed

lemma New_loop_result:
  assumes "odd i" "3 \<le> i" "in_bounds sieve"
    and "\<forall>k. odd k \<and> 3 \<le> k \<and> k \<le> size_sieve sieve
           \<longrightarrow> bit_sieve sieve k = Inr (of_bool (struck_below i k))"
  shows "\<exists>sieve'. New_loop sieve i = Some (Inr sieve')
           \<and> size_sieve sieve' = size_sieve sieve \<and> count_sieve sieve' = count_sieve sieve
           \<and> length (table_sieve sieve') = length (table_sieve sieve)
           \<and> sieved sieve'"
  using assms
proof (induction "nat (size_sieve sieve + 1 - i)" arbitrary: sieve i rule: less_induct)
  case less
  note inv = less.prems(4) [rule_format]
  show ?case
  proof (cases "i * i \<le> size_sieve sieve")
    case False
    have res: "New_loop sieve i = Some (Inr sieve)"
      using False by (subst New_loop.simps) simp
    have "bit_sieve sieve k = Inr (if is_prime k then 0 else 1)"
      if "odd k \<and> 3 \<le> k \<and> k \<le> size_sieve sieve" for k
    proof -
      from that False have "k < i * i" by simp
      with that \<open>3 \<le> i\<close> have "struck_below i k \<longleftrightarrow> \<not> is_prime k"
        by (intro struck_below_final) simp_all
      with inv [OF that] show ?thesis by simp
    qed
    with \<open>in_bounds sieve\<close> have "sieved sieve" by (simp add: sieved_def)
    with res show ?thesis by simp
  next
    case True
    with self_le_square [of i] have i_le: "i \<le> size_sieve sieve" by simp
    with less.prems have bit_i: "bit_sieve sieve i = Inr (of_bool (struck_below i i))"
      by (intro inv) simp
    have meas: "nat (size_sieve sieve + 1 - (i + 2)) < nat (size_sieve sieve + 1 - i)"
      using i_le by simp
    have i2: "odd (i + 2)" "3 \<le> i + 2" using less.prems by simp_all
    show ?thesis
    proof (cases "struck_below i i")
      case struck: True
      have step: "New_loop sieve i = New_loop sieve (i + 2)"
        using True bit_i struck by (subst New_loop.simps) simp
      have "bit_sieve sieve k = Inr (of_bool (struck_below (i + 2) k))"
        if "odd k \<and> 3 \<le> k \<and> k \<le> size_sieve sieve" for k
      proof -
        have "struck_below (i + 2) k \<longleftrightarrow> struck_below i k"
          using that less.prems struck
          by (auto simp: struck_below_step intro: struck_below_dvd)
        with inv [OF that] show ?thesis by simp
      qed
      then show ?thesis
        unfolding step using less.hyps [OF meas i2 \<open>in_bounds sieve\<close>] by blast
    next
      case unstruck: False
      have "0 < i" "0 \<le> 3 * i" using \<open>3 \<le> i\<close> by simp_all
      from New_strike_result [OF this \<open>in_bounds sieve\<close>]
      obtain s1 where s1: "New_strike sieve i (3 * i) = Some (Inr s1)"
        "size_sieve s1 = size_sieve sieve" "count_sieve s1 = count_sieve sieve"
        "length (table_sieve s1) = length (table_sieve sieve)"
        "\<And>k. 0 \<le> k \<Longrightarrow> bit_sieve s1 k =
                 (if \<exists>m\<ge>0. 3 * i + 2 * i * m \<le> size_sieve sieve \<and> k div 2 = (3 * i + 2 * i * m) div 2
                  then Inr 1 else bit_sieve sieve k)"
        by blast
      have step: "New_loop sieve i = New_loop s1 (i + 2)"
        using True bit_i unstruck s1(1) by (subst New_loop.simps) simp
      have bounds: "in_bounds s1"
        using \<open>in_bounds sieve\<close> s1 by (simp add: in_bounds_def)
      have "bit_sieve s1 k = Inr (of_bool (struck_below (i + 2) k))"
        if "odd k \<and> 3 \<le> k \<and> k \<le> size_sieve s1" for k
      proof -
        from that have k: "odd k" "3 \<le> k" "k \<le> size_sieve sieve" "0 \<le> k"
          using s1(2) by simp_all
        have "bit_sieve s1 k = (if i < k \<and> i dvd k then Inr 1 else bit_sieve sieve k)"
          using s1(5) [OF k(4)] odd_multiple_iff [OF \<open>odd i\<close> \<open>0 < i\<close> k(1), of "size_sieve sieve"] k(3)
          by simp
        also have "bit_sieve sieve k = Inr (of_bool (struck_below i k))"
          using k by (intro inv) simp
        finally show ?thesis
          using struck_below_step [OF k(1) \<open>odd i\<close> \<open>3 \<le> i\<close>] by simp
      qed
      then have "\<forall>k. odd k \<and> 3 \<le> k \<and> k \<le> size_sieve s1
           \<longrightarrow> bit_sieve s1 k = Inr (of_bool (struck_below (i + 2) k))" by blast
      from less.hyps [OF _ i2 bounds this] meas s1 show ?thesis
        unfolding step by simp
    qed
  qed
qed

lemma New_result:
  assumes "0 \<le> sz"
  shows "\<exists>sieve. New sz = Some (Inr sieve) \<and> size_sieve sieve = sz \<and> count_sieve sieve = 0
           \<and> int (length (table_sieve sieve)) = 1 + (sz + 7) div 8 \<and> sieved sieve"
proof -
  define len where "len = 1 + (sz + 7) div 8"
  define s0 where "s0 = \<lparr>size_sieve = sz, count_sieve = 0, table_sieve = replicate (nat len) 0\<rparr>"
  have len: "1 + (sz + wordBits - 1) sdiv wordBits = len" "0 \<le> len"
    using assms by (simp_all add: len_def wordBits_eq sdiv_nonneg pos_imp_zdiv_nonneg_iff)
  have New: "New sz = New_loop s0 3"
    using len by (simp add: New_def s0_def)
  have "sz div 16 \<le> (sz + 7) div 8"
    using assms by presburger
  then have bounds: "in_bounds s0"
    using len by (simp add: in_bounds_def s0_def len_def)
  have "bit_sieve s0 k = Inr (of_bool (struck_below 3 k))"
    if "odd k \<and> 3 \<le> k \<and> k \<le> size_sieve s0" for k
  proof -
    from that bounds have "k div 16 < int (length (table_sieve s0))"
      by (intro in_bounds_index) simp_all
    moreover have "0 \<le> k div 16"
      using that by (simp add: pos_imp_zdiv_nonneg_iff)
    moreover have "nat (k div 16) < nat len"
      using calculation len(2) by (simp add: s0_def)
    ultimately show ?thesis
      using that by (simp add: bit_sieve_eq struck_below_def s0_def)
  qed
  then have "\<forall>k. odd k \<and> 3 \<le> k \<and> k \<le> size_sieve s0
           \<longrightarrow> bit_sieve s0 k = Inr (of_bool (struck_below 3 k))" by blast
  from New_loop_result [OF _ _ bounds this]
  obtain sieve where "New_loop s0 3 = Some (Inr sieve)" "size_sieve sieve = size_sieve s0"
    "count_sieve sieve = count_sieve s0" "length (table_sieve sieve) = length (table_sieve s0)"
    "sieved sieve"
    by auto
  then show ?thesis
    using len by (auto simp: New s0_def len_def)
qed

lemma New_size:
  assumes "New sz = Some (Inr sieve)"
  shows "size_sieve sieve = sz"
proof (cases "0 \<le> sz")
  case True
  from New_result [OF this] assms show ?thesis by auto
next
  case False
  then have "\<not> 3 * 3 \<le> sz" by simp
  then have "New_loop \<lparr>size_sieve = sz, count_sieve = 0, table_sieve = t\<rparr> 3
               = Some (Inr \<lparr>size_sieve = sz, count_sieve = 0, table_sieve = t\<rparr>)" for t
    by (subst New_loop.simps) simp
  with assms show ?thesis
    by (auto simp: New_def Let_def split: if_splits)
qed

lemma New_fails_iff: "New sz = Some (Inl MakesliceLenOutOfRange) \<longleftrightarrow> sz \<le> - 23"
proof (cases "0 \<le> sz")
  case True
  from New_result [OF this] True show ?thesis by auto
next
  case False
  then have "\<not> 3 * 3 \<le> sz" by simp
  then have loop: "New_loop \<lparr>size_sieve = sz, count_sieve = 0, table_sieve = t\<rparr> 3
               = Some (Inr \<lparr>size_sieve = sz, count_sieve = 0, table_sieve = t\<rparr>)" for t
    by (subst New_loop.simps) simp
  have "1 + (sz + wordBits - 1) sdiv wordBits < 0 \<longleftrightarrow> sz \<le> - 23"
    unfolding wordBits_eq signed_divide_int_def by (auto simp: sgn_if abs_if)
  then show ?thesis
    by (simp add: New_def Let_def loop)
qed

lemma New_negative:
  assumes "sz < 0" "- 22 \<le> sz"
  shows "\<exists>table. New sz = Some (Inr \<lparr>size_sieve = sz, count_sieve = 0, table_sieve = table\<rparr>)
           \<and> int (length table) = 1 + (sz + wordBits - 1) sdiv wordBits \<and> length table \<le> 1"
proof -
  define len where "len = 1 + (sz + wordBits - 1) sdiv wordBits"
  from assms(1) have "\<not> 3 * 3 \<le> sz" by simp
  then have loop: "New_loop \<lparr>size_sieve = sz, count_sieve = 0, table_sieve = t\<rparr> 3
               = Some (Inr \<lparr>size_sieve = sz, count_sieve = 0, table_sieve = t\<rparr>)" for t
    by (subst New_loop.simps) simp
  have len: "0 \<le> len" "len \<le> 1"
    using assms unfolding len_def wordBits_eq signed_divide_int_def
    by (auto simp: sgn_if abs_if)
  then have "New sz = Some (Inr \<lparr>size_sieve = sz, count_sieve = 0,
                                  table_sieve = replicate (nat len) 0\<rparr>)"
    by (simp add: New_def len_def [symmetric] loop)
  moreover from len have "int (length (replicate (nat len) (0 :: 8 word))) = len"
    "length (replicate (nat len) (0 :: 8 word)) \<le> 1"
    by simp_all
  ultimately show ?thesis unfolding len_def by blast
qed

lemma sieved_bit_unset:
  assumes "sieved sieve" "odd d" "3 \<le> d" "d \<le> size_sieve sieve"
  shows "bit_sieve sieve d = Inr 0 \<longleftrightarrow> is_prime d"
  using assms by (simp add: sieved_def)

section \<open>Prime\<close>

text \<open>
  Below the square of 3037000499, the largest number whose square fits 64 bits, no
  square that the root loop computes wraps: the loop ends at the integer square root.
\<close>

lemma Prime_root_bounds:
  assumes "r * r \<le> n" "0 \<le> r" "n < 3037000499 * 3037000499"
  shows "\<exists>root. Prime_root n r = Some root \<and> r \<le> root \<and> root * root \<le> n
           \<and> n < (root + 1) * (root + 1)"
  using assms
proof (induction "nat (3037000499 - r)" arbitrary: r rule: less_induct)
  case less
  from less.prems have small: "r < 3037000499" by (intro square_less_imp_less [of r n]) simp_all
  with less.prems have exact: "mul_int (r + 1) (r + 1) = (r + 1) * (r + 1)"
    by (intro mul_int_exact) simp_all
  show ?case
  proof (cases "(r + 1) * (r + 1) \<le> n")
    case True
    with exact have "Prime_root n r = Prime_root n (r + 1)"
      by (subst Prime_root.simps) simp
    moreover from small less.prems True
    have "\<exists>root. Prime_root n (r + 1) = Some root \<and> r + 1 \<le> root \<and> root * root \<le> n
           \<and> n < (root + 1) * (root + 1)"
      by (intro less.hyps) simp_all
    ultimately show ?thesis by force
  next
    case False
    with exact have "Prime_root n r = Some r"
      by (subst Prime_root.simps) simp
    with False less.prems show ?thesis by simp
  qed
qed

lemma Prime_trial_result:
  assumes "sieved sieve" "root \<le> size_sieve sieve" "odd d" "3 \<le> d" "0 \<le> n"
  shows "Prime_trial sieve n root d =
           Inr (\<not> (\<exists>p. is_prime p \<and> d \<le> p \<and> p \<le> root \<and> p dvd n))"
  using assms
proof (induction sieve n root d rule: Prime_trial.induct)
  case (1 sieve n root d)
  show ?case
  proof (cases "d \<le> root")
    case False
    then show ?thesis by (subst Prime_trial.simps) auto
  next
    case True
    with 1 have bit: "bit_sieve sieve d = Inr (if is_prime d then 0 else 1)"
      by (simp add: sieved_def)
    show ?thesis
    proof (cases "is_prime d \<and> d dvd n")
      case hit: True
      with True bit 1 have "Prime_trial sieve n root d = Inr False"
        by (subst Prime_trial.simps) (simp add: smod_eq_0_iff)
      with hit True show ?thesis by auto
    next
      case miss: False
      from miss True bit 1 have "Prime_trial sieve n root d = Prime_trial sieve n root (d + 2)"
        by (subst Prime_trial.simps) (auto simp: smod_eq_0_iff)
      also have "\<dots> = Inr (\<not> (\<exists>p. is_prime p \<and> d + 2 \<le> p \<and> p \<le> root \<and> p dvd n))"
        using True bit miss 1 by (intro "1.IH") (auto simp: smod_eq_0_iff)
      also have "(\<exists>p. is_prime p \<and> d + 2 \<le> p \<and> p \<le> root \<and> p dvd n)
                   \<longleftrightarrow> (\<exists>p. is_prime p \<and> d \<le> p \<and> p \<le> root \<and> p dvd n)" (is "?L \<longleftrightarrow> ?R")
      proof
        assume ?L then show ?R by force
      next
        assume ?R
        then obtain p where p: "is_prime p" "d \<le> p" "p \<le> root" "p dvd n" by blast
        with miss have "p \<noteq> d" by auto
        moreover from p(1) \<open>3 \<le> d\<close> \<open>d \<le> p\<close> have "odd p" using is_prime_odd [of p] by simp
        with \<open>odd d\<close> have "p \<noteq> d + 1" by auto
        ultimately have "d + 2 \<le> p" using \<open>d \<le> p\<close> by simp
        with p show ?L by blast
      qed
      finally show ?thesis .
    qed
  qed
qed

lemma Prime_in_range:
  assumes "sieved sieve" "0 \<le> size_sieve sieve"
    and "n \<le> size_sieve sieve
         \<or> n \<le> mul_int (size_sieve sieve) (size_sieve sieve) \<and> n < 3037000499 * 3037000499"
  shows "Prime sieve n = Some (Inr (is_prime n))"
proof -
  consider "n < 2" | "n = 2" | "2 < n" "even n" | "2 < n" "odd n" "n \<le> size_sieve sieve"
    | "2 < n" "odd n" "size_sieve sieve < n"
    by linarith
  then show ?thesis
  proof cases
    case 1
    then show ?thesis by (simp add: Prime_def is_prime_def)
  next
    case 2
    then show ?thesis by (simp add: Prime_def is_prime_2)
  next
    case 3
    then show ?thesis by (simp add: Prime_def and_1_eq_0_iff not_is_prime_even)
  next
    case 4
    with assms(1) have "bit_sieve sieve n = Inr (if is_prime n then 0 else 1)"
      by (simp add: sieved_def)
    with 4 show ?thesis by (simp add: Prime_def and_1_eq_0_iff and_1_eq_1_iff)
  next
    case 5
    with assms(3) have range: "n \<le> mul_int (size_sieve sieve) (size_sieve sieve)"
      and below: "n < 3037000499 * 3037000499" by simp_all
    from 5 have "1 * 1 \<le> n" by simp
    from Prime_root_bounds [OF this _ below] obtain root where
      root: "Prime_root n 1 = Some root" "1 \<le> root" "root * root \<le> n"
        "n < (root + 1) * (root + 1)"
      by auto
    from range mul_int_self_le [of "size_sieve sieve"]
    have "n \<le> size_sieve sieve * size_sieve sieve" by simp
    with root(3) have "root * root \<le> size_sieve sieve * size_sieve sieve" by simp
    from this assms(2) have root_le: "root \<le> size_sieve sieve" by (rule square_le_imp_le)
    from root(3) below have "root < 3037000499" by (intro square_less_imp_less [of root n]) simp_all
    with root(2) have exact: "mul_int root root = root * root" by (intro mul_int_exact) simp_all
    have root_less: "root < n"
    proof (rule ccontr)
      assume "\<not> root < n"
      with 5 have "n * n \<le> root * root" by (intro mult_mono) simp_all
      moreover from 5 have "n * 1 < n * n" by (intro mult_strict_left_mono) simp_all
      ultimately show False using root(3) by simp
    qed
    have Prime: "Prime sieve n =
                   (if root * root = n then Some (Inr False) else Some (Prime_trial sieve n root 3))"
      using 5 range root(1) exact by (simp add: Prime_def and_1_eq_0_iff)
    show ?thesis
    proof (cases "root * root = n")
      case True
      with 5 root(2) have "1 < root" by (cases "root = 1") auto
      with True root_less have "1 < root \<and> root < n \<and> root dvd n" by auto
      then have "\<not> is_prime n" unfolding is_prime_iff by blast
      with True Prime show ?thesis by simp
    next
      case False
      have "Prime_trial sieve n root 3 = Inr (\<not> (\<exists>p. is_prime p \<and> 3 \<le> p \<and> p \<le> root \<and> p dvd n))"
        using assms(1) root_le 5 by (intro Prime_trial_result) simp_all
      moreover have "(\<exists>p. is_prime p \<and> 3 \<le> p \<and> p \<le> root \<and> p dvd n) \<longleftrightarrow> \<not> is_prime n"
      proof
        assume "\<exists>p. is_prime p \<and> 3 \<le> p \<and> p \<le> root \<and> p dvd n"
        then obtain p where "3 \<le> p" "p \<le> root" "p dvd n" by blast
        with root_less have "1 < p \<and> p < n \<and> p dvd n" by simp
        then show "\<not> is_prime n" unfolding is_prime_iff by blast
      next
        assume "\<not> is_prime n"
        with 5 small_prime_divisor [of n] obtain p where p: "is_prime p" "p dvd n" "p * p \<le> n"
          by auto
        from p(2) \<open>odd n\<close> have "p \<noteq> 2" by auto
        with p(1) have "3 \<le> p" using is_prime_odd by blast
        have "p \<le> root"
        proof (rule ccontr)
          assume "\<not> p \<le> root"
          then have "root + 1 \<le> p" by simp
          with root(2) have "(root + 1) * (root + 1) \<le> p * p" by (intro mult_mono) simp_all
          with p(3) root(4) show False by simp
        qed
        with p \<open>3 \<le> p\<close> show "\<exists>p. is_prime p \<and> 3 \<le> p \<and> p \<le> root \<and> p dvd n" by blast
      qed
      ultimately show ?thesis using False Prime by simp
    qed
  qed
qed

text \<open>Up to the size \<open>Prime\<close> runs no loop: it returns, whatever the table holds.\<close>

lemma Prime_table:
  assumes "n \<le> size_sieve sieve"
  shows "\<exists>r. Prime sieve n = Some r"
  using assms by (simp add: Prime_def split: sum.split)

lemma Prime_beyond:
  assumes "\<not> n \<le> size_sieve sieve" "\<not> n \<le> mul_int (size_sieve sieve) (size_sieve sieve)"
  shows "Prime sieve n = Some (Inr (n = 2))"
  using assms by (simp add: Prime_def)

lemma Prime_out_of_range:
  assumes "size_sieve sieve * size_sieve sieve < n"
  shows "Prime sieve n = Some (Inr (n = 2))"
proof -
  from assms self_le_square [of "size_sieve sieve"] have "\<not> n \<le> size_sieve sieve" by simp
  moreover from assms mul_int_self_le [of "size_sieve sieve"]
  have "\<not> n \<le> mul_int (size_sieve sieve) (size_sieve sieve)" by simp
  ultimately show ?thesis by (rule Prime_beyond)
qed



section \<open>Count\<close>

lemma prime_count_step: "prime_count n = prime_count (n - 1) + (if is_prime n then 1 else 0)"
proof (cases "2 \<le> n")
  case True
  then have "[2..n] = [2..n - 1] @ [n]" by (rule upto_rec2)
  then show ?thesis by (simp add: prime_count_def)
next
  case False
  then show ?thesis by (simp add: prime_count_def is_prime_def)
qed

lemma prime_count_mono: "m \<le> n \<Longrightarrow> prime_count m \<le> prime_count n"
proof (cases "2 \<le> m")
  case True
  assume "m \<le> n"
  with True have "[2..n] = [2..m] @ [m + 1..n]" by (intro upto_split2) simp_all
  then show ?thesis by (simp add: prime_count_def)
next
  case False
  then show ?thesis by (simp add: prime_count_def)
qed

lemma prime_count_card: "prime_count n = int (card {p. is_prime p \<and> p \<le> n})"
proof -
  have "{p. is_prime p \<and> p \<le> n} = set (filter is_prime [2..n])"
    by (auto simp: is_prime_def)
  moreover have "distinct (filter is_prime [2..n])" by simp
  ultimately have "card {p. is_prime p \<and> p \<le> n} = length (filter is_prime [2..n])"
    by (simp only: distinct_card)
  then show ?thesis
    by (simp only: prime_count_def)
qed

lemma prime_count_small: "n < 2 \<Longrightarrow> prime_count n = 0"
  by (simp add: prime_count_def)

lemma prime_count_2: "prime_count 2 = 1"
  by (simp add: prime_count_def is_prime_2 upto_rec1)

lemma prime_count_even: "even n \<Longrightarrow> 2 < n \<Longrightarrow> prime_count n = prime_count (n - 1)"
  using prime_count_step [of n] not_is_prime_even [of n] by simp

lemma bit_sieve_count [simp]: "bit_sieve (sieve\<lparr>count_sieve := c\<rparr>) k = bit_sieve sieve k"
  by (simp add: bit_sieve_eq)

lemma sieved_count [simp]: "sieved (sieve\<lparr>count_sieve := c\<rparr>) = sieved sieve"
  by (simp add: sieved_def in_bounds_def)

lemma Count_loop_result:
  assumes "sieved sieve" "odd i" "3 \<le> i" "i \<le> size_sieve sieve + 2" "2 \<le> size_sieve sieve"
    "count_sieve sieve = prime_count (i - 1)"
  shows "Count_loop sieve i = Inr (sieve\<lparr>count_sieve := prime_count (size_sieve sieve)\<rparr>)"
  using assms
proof (induction sieve i rule: Count_loop.induct)
  case (1 sieve i)
  show ?case
  proof (cases "i \<le> size_sieve sieve")
    case False
    with 1 have "i - 1 = size_sieve sieve \<or> (i - 1 = size_sieve sieve + 1 \<and> even (i - 1) \<and> 2 < i - 1)"
      by auto
    then have "prime_count (i - 1) = prime_count (size_sieve sieve)"
      using prime_count_even [of "i - 1"] by auto
    with 1 False show ?thesis
      by (subst Count_loop.simps) simp
  next
    case True
    with 1 have bit: "bit_sieve sieve i = Inr (if is_prime i then 0 else 1)"
      by (simp add: sieved_def)
    define sieve' where "sieve' = (if is_prime i then sieve\<lparr>count_sieve := count_sieve sieve + 1\<rparr> else sieve)"
    have step: "Count_loop sieve i = Count_loop sieve' (i + 2)"
      using True bit by (subst Count_loop.simps) (simp add: sieve'_def)
    have "prime_count (i + 1) = prime_count (i + 1 - 1)"
      using "1.prems" by (intro prime_count_even) simp_all
    then have next_count: "prime_count (i + 2 - 1) = prime_count (i - 1) + (if is_prime i then 1 else 0)"
      using prime_count_step [of i] by (simp only: add_diff_cancel_right' add_diff_eq [symmetric]) simp
    have "count_sieve sieve' = prime_count (i - 1) + (if is_prime i then 1 else 0)"
      using "1.prems"(6) by (simp add: sieve'_def)
    with next_count have count: "count_sieve sieve' = prime_count (i + 2 - 1)"
      by (simp only:)
    have sieve'_eq: "sieve' = (if (if is_prime i then 0 else 1) = (0 :: 8 word)
                               then sieve\<lparr>count_sieve := count_sieve sieve + 1\<rparr> else sieve)"
      by (simp add: sieve'_def)
    have "Count_loop sieve' (i + 2) = Inr (sieve'\<lparr>count_sieve := prime_count (size_sieve sieve')\<rparr>)"
      unfolding sieve'_eq
    proof (rule "1.IH" [OF True bit])
      show "sieved (if (if is_prime i then 0 else 1) = (0 :: 8 word)
                    then sieve\<lparr>count_sieve := count_sieve sieve + 1\<rparr> else sieve)"
        using "1.prems"(1) by simp
      show "count_sieve (if (if is_prime i then 0 else 1) = (0 :: 8 word)
                    then sieve\<lparr>count_sieve := count_sieve sieve + 1\<rparr> else sieve) = prime_count (i + 2 - 1)"
        using count unfolding sieve'_eq .
    qed (use True "1.prems" in simp_all)
    then show ?thesis
      unfolding step by (simp add: sieve'_def)
  qed
qed

lemma Count_result:
  assumes "sieved sieve" "count_sieve sieve = 0 \<or> count_sieve sieve = prime_count (size_sieve sieve)"
  shows "Count sieve = Inr (prime_count (size_sieve sieve),
                            sieve\<lparr>count_sieve := prime_count (size_sieve sieve)\<rparr>)"
proof (cases "count_sieve sieve = 0")
  case False
  with assms show ?thesis by (simp add: Count_def)
next
  case True
  show ?thesis
  proof (cases "size_sieve sieve \<ge> 2")
    case large: True
    have "Count_loop (sieve\<lparr>count_sieve := 1\<rparr>) 3
            = Inr (sieve\<lparr>count_sieve := 1\<rparr>\<lparr>count_sieve := prime_count (size_sieve (sieve\<lparr>count_sieve := 1\<rparr>))\<rparr>)"
      using assms(1) large by (intro Count_loop_result) (simp_all add: prime_count_2)
    with True large show ?thesis by (simp add: Count_def)
  next
    case small: False
    then have "Count_loop sieve 3 = Inr sieve"
      by (subst Count_loop.simps) simp
    with True small show ?thesis by (simp add: Count_def prime_count_small)
  qed
qed

lemma prime_count_odd_primes:
  "prime_count sz = (if 2 \<le> sz then 1 else 0) + int (length (filter is_prime [3..sz]))"
proof (cases "2 \<le> sz")
  case True
  then have "[2..sz] = 2 # [3..sz]" by (simp add: upto_rec1)
  with True show ?thesis by (simp add: prime_count_def is_prime_2)
next
  case False
  then show ?thesis by (simp add: prime_count_def)
qed

section \<open>NthPrime\<close>

lemma NthPrime_loop_result:
  assumes "sieved sieve" "0 \<le> size_sieve sieve" "odd v" "3 \<le> v"
    "c = prime_count (v - 1)" "c < n"
  shows "\<exists>r. NthPrime_loop sieve n v c = Some (Inr r) \<and>
           (r = 0 \<and> prime_count (size_sieve sieve) < n
            \<or> is_prime r \<and> r \<le> size_sieve sieve \<and> prime_count r = n)"
  using assms(3-)
proof (induction "nat (size_sieve sieve + 1 - v)" arbitrary: v c rule: less_induct)
  case less
  show ?case
  proof (cases "v \<le> size_sieve sieve")
    case False
    then have "prime_count (size_sieve sieve) \<le> prime_count (v - 1)"
      by (intro prime_count_mono) simp
    with False less.prems show ?thesis
      by (subst NthPrime_loop.simps) simp
  next
    case True
    with assms(1,2) have Prime: "Prime sieve v = Some (Inr (is_prime v))"
      by (intro Prime_in_range) simp_all
    have "prime_count (v + 1) = prime_count (v + 1 - 1)"
      using less.prems by (intro prime_count_even) simp_all
    then have next_count: "prime_count (v + 2 - 1) = prime_count v"
      by (simp only: add_diff_cancel_right' add_diff_eq [symmetric]) simp
    have count_v: "prime_count v = c + (if is_prime v then 1 else 0)"
      using prime_count_step [of v] less.prems by simp
    have v2: "odd (v + 2)" "3 \<le> v + 2" using less.prems by simp_all
    from True have smaller: "nat (size_sieve sieve + 1 - (v + 2)) < nat (size_sieve sieve + 1 - v)"
      by simp
    show ?thesis
    proof (cases "is_prime v")
      case notprime: False
      have step: "NthPrime_loop sieve n v c = NthPrime_loop sieve n (v + 2) c"
        using True Prime notprime by (subst NthPrime_loop.simps) simp
      from notprime count_v next_count have "c = prime_count (v + 2 - 1)" by simp
      from less.hyps [OF smaller v2 this less.prems(4)]
      show ?thesis unfolding step .
    next
      case prime: True
      show ?thesis
      proof (cases "c + 1 = n")
        case found: True
        have "NthPrime_loop sieve n v c = Some (Inr v)"
          using True Prime prime found by (subst NthPrime_loop.simps) simp
        with prime True count_v found show ?thesis by simp
      next
        case more: False
        have step: "NthPrime_loop sieve n v c = NthPrime_loop sieve n (v + 2) (c + 1)"
          using True Prime prime more by (subst NthPrime_loop.simps) simp
        from prime count_v next_count have "c + 1 = prime_count (v + 2 - 1)" by simp
        moreover from more less.prems(4) have "c + 1 < n" by simp
        ultimately show ?thesis
          unfolding step
          using less.hyps [OF smaller v2] by blast
      qed
    qed
  qed
qed


section \<open>The factoring loops\<close>

lemma expand_simps [simp]:
  "expand [] = []"
  "expand (us @ [\<lparr>Factor_u = p, Count_u = k\<rparr>]) = expand us @ replicate (nat k) p"
  by (simp_all add: expand_def)

lemma sdiv_less_self: "1 < n \<Longrightarrow> 2 \<le> d \<Longrightarrow> (n::int) sdiv d < n"
  by (simp add: sdiv_nonneg int_div_less_self)

lemma strip_step:
  assumes "1 < (n::int)" "2 \<le> d" "n smod d = 0"
  shows "n = (n sdiv d) * d" "1 \<le> n sdiv d"
proof -
  from assms have "d dvd n" by (simp add: smod_eq_0_iff)
  with assms show eq: "n = (n sdiv d) * d" by (simp add: sdiv_nonneg)
  have "0 < (n sdiv d) * d" using eq assms(1) by simp
  with assms(2) have "0 < n sdiv d" by (simp add: zero_less_mult_iff)
  then show "1 \<le> n sdiv d" by simp
qed

lemma strip_result:
  assumes "2 \<le> d"
  shows "\<exists>n' c'. count_strip d n c = Some (n', c') \<and> c \<le> c'
           \<and> Factor_strip d n result = Some (n', result @ replicate (nat (c' - c)) d)
           \<and> n = n' * d ^ nat (c' - c)
           \<and> (n > 1 \<and> n smod d = 0 \<longrightarrow> c < c') \<and> (1 \<le> n \<longrightarrow> 1 \<le> n')"
proof (induction "nat n" arbitrary: n c result rule: less_induct)
  case less
  show ?case
  proof (cases "n > 1 \<and> n smod d = 0")
    case False
    then have "count_strip d n c = Some (n, c)"
      by (subst count_strip.simps) auto
    moreover from False have "Factor_strip d n result = Some (n, result)"
      by (subst Factor_strip.simps) auto
    ultimately have "count_strip d n c = Some (n, c)" "Factor_strip d n result = Some (n, result)"
      by simp_all
    with False show ?thesis by simp
  next
    case True
    with assms have "nat (n sdiv d) < nat n"
      using sdiv_less_self [of n d] by simp
    from less [OF this, of "c + 1" "result @ [d]"] obtain n' c' where
      IH: "count_strip d (n sdiv d) (c + 1) = Some (n', c')" "c + 1 \<le> c'"
        "Factor_strip d (n sdiv d) (result @ [d]) = Some (n', (result @ [d]) @ replicate (nat (c' - (c + 1))) d)"
        "n sdiv d = n' * d ^ nat (c' - (c + 1))" "1 \<le> n sdiv d \<longrightarrow> 1 \<le> n'"
      by blast
    from IH(2) have nat: "nat (c' - c) = Suc (nat (c' - (c + 1)))" by simp
    have 1: "count_strip d n c = Some (n', c')"
      using True IH(1) by (subst count_strip.simps) simp
    have 2: "Factor_strip d n result = Some (n', result @ replicate (nat (c' - c)) d)"
      using True IH(3) by (subst Factor_strip.simps) (simp add: nat replicate_append_same)
    have 3: "n = n' * d ^ nat (c' - c)"
      using strip_step(1) [of n d] True assms IH(4) by (simp add: nat)
    have 4: "1 \<le> n'"
      using strip_step(2) [of n d] True assms IH(5) by simp
    from 1 2 3 4 IH(2) show ?thesis by simp
  qed
qed

lemma twos_result:
  "\<exists>n' c'. count_twos n c = (n', c') \<and> c \<le> c'
           \<and> Factor_twos n result = (n', result @ replicate (nat (c' - c)) 2)
           \<and> n = n' * 2 ^ nat (c' - c)
           \<and> (n > 1 \<and> n smod 2 = 0 \<longrightarrow> c < c') \<and> (1 \<le> n \<longrightarrow> 1 \<le> n')"
proof (induction "nat n" arbitrary: n c result rule: less_induct)
  case less
  show ?case
  proof (cases "n > 1 \<and> n smod 2 = 0")
    case False
    then have "count_twos n c = (n, c)"
      by (subst count_twos.simps) auto
    moreover from False have "Factor_twos n result = (n, result)"
      by (subst Factor_twos.simps) auto
    ultimately have "count_twos n c = (n, c)" "Factor_twos n result = (n, result)"
      by simp_all
    with False show ?thesis by simp
  next
    case True
    have half: "drop_bit (Suc 0) n = n sdiv 2"
      using True by (simp add: drop_bit_eq_div sdiv_nonneg)
    from True have "nat (n sdiv 2) < nat n"
      using sdiv_less_self [of n 2] by simp
    from less [OF this, of "c + 1" "result @ [2]"] obtain n' c' where
      IH: "count_twos (n sdiv 2) (c + 1) = (n', c')" "c + 1 \<le> c'"
        "Factor_twos (n sdiv 2) (result @ [2]) = (n', (result @ [2]) @ replicate (nat (c' - (c + 1))) 2)"
        "n sdiv 2 = n' * 2 ^ nat (c' - (c + 1))" "1 \<le> n sdiv 2 \<longrightarrow> 1 \<le> n'"
      by blast
    from IH(2) have nat: "nat (c' - c) = Suc (nat (c' - (c + 1)))" by simp
    have 1: "count_twos n c = (n', c')"
      using True IH(1) by (subst count_twos.simps) (simp add: half)
    have 2: "Factor_twos n result = (n', result @ replicate (nat (c' - c)) 2)"
      using True IH(3) by (subst Factor_twos.simps) (simp add: half nat replicate_append_same)
    have 3: "n = n' * 2 ^ nat (c' - c)"
      using strip_step(1) [of n 2] True IH(4) by (simp add: nat)
    have 4: "1 \<le> n'"
      using strip_step(2) [of n 2] True IH(5) by simp
    from 1 2 3 4 IH(2) show ?thesis by simp
  qed
qed

lemma prod_list_replicate: "prod_list (replicate k (d::int)) = d ^ k"
  by (induction k) simp_all

lemma Factor_loop_result:
  assumes "2 \<le> d"
  shows "\<exists>res. Factor_loop sieve d n result = Some res
           \<and> (\<forall>n' result'. res = Inr (n', result') \<longrightarrow>
                 n' * prod_list result' = n * prod_list result \<and> (1 \<le> n \<longrightarrow> 1 \<le> n'))
           \<and> ((\<forall>k. k \<le> size_sieve sieve \<longrightarrow> (\<exists>b. Prime sieve k = Some (Inr b))) \<longrightarrow> (\<exists>n' result'. res = Inr (n', result')))"
  using assms
proof (induction "nat (size_sieve sieve - d)" arbitrary: d n result rule: less_induct)
  case less
  show ?case
  proof (cases "d < size_sieve sieve \<and> mul_int d d \<le> n")
    case False
    then have "Factor_loop sieve d n result = Some (Inr (n, result))"
      by (subst Factor_loop.simps) auto
    then show ?thesis by simp
  next
    case True
    then have meas: "nat (size_sieve sieve - (d + 2)) < nat (size_sieve sieve - d)" by simp
    from less.prems have d2: "2 \<le> d + 2" by simp
    note IH = less.hyps [OF meas d2]
    from True Prime_table [of d sieve] obtain r where r: "Prime sieve d = Some r" by auto
    show ?thesis
    proof (cases r)
      case (Inl e)
      with True r have "Factor_loop sieve d n result = Some (Inl e)"
        by (subst Factor_loop.simps) simp
      moreover from Inl r True have "\<not> (\<forall>k. k \<le> size_sieve sieve \<longrightarrow> (\<exists>b. Prime sieve k = Some (Inr b)))"
        by (auto intro!: exI [of _ d])
      ultimately show ?thesis by simp
    next
      case (Inr p)
      show ?thesis
      proof (cases p)
        case False
        with True r Inr have "Factor_loop sieve d n result = Factor_loop sieve (d + 2) n result"
          by (subst Factor_loop.simps) simp
        with IH [of n result] show ?thesis by simp
      next
        case prime: True
        from strip_result [OF less.prems, of n 0 result] obtain n1 c where
          strip: "Factor_strip d n result = Some (n1, result @ replicate (nat c) d)"
            "n = n1 * d ^ nat c" "1 \<le> n \<longrightarrow> 1 \<le> n1"
          by auto
        from True r Inr prime strip(1)
        have step: "Factor_loop sieve d n result
                      = Factor_loop sieve (d + 2) n1 (result @ replicate (nat c) d)"
          by (subst Factor_loop.simps) simp
        have "n1 * prod_list (result @ replicate (nat c) d) = n * prod_list result"
          using strip(2) by (simp add: prod_list_replicate)
        with IH [of n1 "result @ replicate (nat c) d"] strip(3) show ?thesis
          unfolding step by auto
      qed
    qed
  qed
qed

lemma FactorUnique_loop_result:
  assumes "2 \<le> d"
  shows "\<exists>res. FactorUnique_loop sieve d n result = Some res
           \<and> Factor_loop sieve d n (expand result)
               = Some (map_sum id (\<lambda>(n', result'). (n', expand result')) res)"
  using assms
proof (induction "nat (size_sieve sieve - d)" arbitrary: d n result rule: less_induct)
  case less
  show ?case
  proof (cases "d < size_sieve sieve \<and> mul_int d d \<le> n")
    case False
    then have "FactorUnique_loop sieve d n result = Some (Inr (n, result))"
      "Factor_loop sieve d n (expand result) = Some (Inr (n, expand result))"
      by (subst FactorUnique_loop.simps Factor_loop.simps, auto)+
    then show ?thesis by simp
  next
    case True
    then have meas: "nat (size_sieve sieve - (d + 2)) < nat (size_sieve sieve - d)" by simp
    from less.prems have d2: "2 \<le> d + 2" by simp
    note IH = less.hyps [OF meas d2]
    from True Prime_table [of d sieve] obtain r where r: "Prime sieve d = Some r" by auto
    show ?thesis
    proof (cases r)
      case (Inl e)
      with True r have "FactorUnique_loop sieve d n result = Some (Inl e)"
        "Factor_loop sieve d n (expand result) = Some (Inl e)"
        by (subst FactorUnique_loop.simps Factor_loop.simps, simp)+
      then show ?thesis by simp
    next
      case (Inr p)
      show ?thesis
      proof (cases p)
        case False
        with True r Inr have "FactorUnique_loop sieve d n result = FactorUnique_loop sieve (d + 2) n result"
          "Factor_loop sieve d n (expand result) = Factor_loop sieve (d + 2) n (expand result)"
          by (subst FactorUnique_loop.simps Factor_loop.simps, simp)+
        with IH [of n result] show ?thesis by simp
      next
        case prime: True
        from strip_result [OF less.prems, of n 0 "expand result"] obtain n1 c where
          strip: "count_strip d n 0 = Some (n1, c)"
            "Factor_strip d n (expand result) = Some (n1, expand result @ replicate (nat c) d)"
            "n > 1 \<and> n smod d = 0 \<longrightarrow> 0 < c"
          by auto
        show ?thesis
        proof (cases "n > 1 \<and> n smod d = 0")
          case divides: True
          from True r Inr prime divides strip(1)
          have "FactorUnique_loop sieve d n result
                  = FactorUnique_loop sieve (d + 2) n1 (result @ [\<lparr>Factor_u = d, Count_u = c\<rparr>])"
            by (subst FactorUnique_loop.simps) simp
          moreover from True r Inr prime strip(2)
          have "Factor_loop sieve d n (expand result)
                  = Factor_loop sieve (d + 2) n1 (expand (result @ [\<lparr>Factor_u = d, Count_u = c\<rparr>]))"
            by (subst Factor_loop.simps) simp
          ultimately show ?thesis
            using IH [of n1 "result @ [\<lparr>Factor_u = d, Count_u = c\<rparr>]"] by simp
        next
          case False
          then have "Factor_strip d n (expand result) = Some (n, expand result)"
            by (subst Factor_strip.simps) auto
          with True r Inr prime
          have "Factor_loop sieve d n (expand result) = Factor_loop sieve (d + 2) n (expand result)"
            by (subst Factor_loop.simps) simp
          moreover from True r Inr prime False
          have "FactorUnique_loop sieve d n result = FactorUnique_loop sieve (d + 2) n result"
            by (subst FactorUnique_loop.simps) auto
          ultimately show ?thesis
            using IH [of n result] by simp
        qed
      qed
    qed
  qed
qed

lemma DivisorCount_loop_result:
  assumes "2 \<le> d"
  shows "\<exists>res. DivisorCount_loop sieve d n m = Some res
           \<and> (\<forall>n' m'. res = Inr (n', m') \<longrightarrow> (1 \<le> m \<longrightarrow> 1 \<le> m'))
           \<and> ((\<forall>k. k \<le> size_sieve sieve \<longrightarrow> (\<exists>b. Prime sieve k = Some (Inr b))) \<longrightarrow> (\<exists>n' m'. res = Inr (n', m')))"
  using assms
proof (induction "nat (size_sieve sieve - d)" arbitrary: d n m rule: less_induct)
  case less
  show ?case
  proof (cases "d < size_sieve sieve \<and> mul_int d d \<le> n")
    case False
    then have "DivisorCount_loop sieve d n m = Some (Inr (n, m))"
      by (subst DivisorCount_loop.simps) auto
    then show ?thesis by simp
  next
    case True
    then have meas: "nat (size_sieve sieve - (d + 2)) < nat (size_sieve sieve - d)" by simp
    from less.prems have d2: "2 \<le> d + 2" by simp
    note IH = less.hyps [OF meas d2]
    from True Prime_table [of d sieve] obtain r where r: "Prime sieve d = Some r" by auto
    show ?thesis
    proof (cases r)
      case (Inl e)
      with True r have "DivisorCount_loop sieve d n m = Some (Inl e)"
        by (subst DivisorCount_loop.simps) simp
      moreover from Inl r True have "\<not> (\<forall>k. k \<le> size_sieve sieve \<longrightarrow> (\<exists>b. Prime sieve k = Some (Inr b)))"
        by (auto intro!: exI [of _ d])
      ultimately show ?thesis by simp
    next
      case (Inr p)
      show ?thesis
      proof (cases "p \<and> n > 1 \<and> n smod d = 0")
        case False
        with True r Inr have "DivisorCount_loop sieve d n m = DivisorCount_loop sieve (d + 2) n m"
          by (subst DivisorCount_loop.simps) auto
        with IH [of n m] show ?thesis by simp
      next
        case divides: True
        from strip_result [OF less.prems, of n 0 "[]"] obtain n1 c where
          strip: "count_strip d n 0 = Some (n1, c)" "0 \<le> c"
          by auto
        from True r Inr divides strip(1)
        have step: "DivisorCount_loop sieve d n m
                      = DivisorCount_loop sieve (d + 2) n1 (m * (c + 1))"
          by (subst DivisorCount_loop.simps) simp
        have "1 \<le> m * (c + 1)" if "1 \<le> m"
          using mult_mono [of 1 m 1 "c + 1"] that strip(2) by simp
        with IH [of n1 "m * (c + 1)"] show ?thesis
          unfolding step by auto
      qed
    qed
  qed
qed

section \<open>Results of the factoring functions\<close>

lemma FactorUnique_Factor:
  "\<exists>us. FactorUnique sieve n = Some us \<and> Factor sieve n = Some (map_sum id expand us)"
proof -
  consider "mul_int (size_sieve sieve) (size_sieve sieve) < n"
    | "\<not> mul_int (size_sieve sieve) (size_sieve sieve) < n" "n \<le> 3"
    | "\<not> mul_int (size_sieve sieve) (size_sieve sieve) < n" "3 < n"
    by linarith
  then show ?thesis
  proof cases
    case 1
    then show ?thesis by (simp add: FactorUnique_def Factor_def)
  next
    case 2
    then show ?thesis by (simp add: FactorUnique_def Factor_def expand_def)
  next
    case 3
    from twos_result [of n 0 "[]"] obtain n1 c where
      twos: "count_twos n 0 = (n1, c)" "Factor_twos n [] = (n1, replicate (nat c) 2)"
      by auto
    define result1 where
      "result1 = (if n > 1 \<and> n smod 2 = 0 then [\<lparr>Factor_u = 2, Count_u = c\<rparr>] else [])"
    have unique_twos: "(if n > 1 \<and> n smod 2 = 0
                  then (case count_twos n 0 of
                          (n1, count) \<Rightarrow> (n1, [\<lparr>Factor_u = 2, Count_u = count\<rparr>]))
                  else (n, [])) = (n1, result1)"
    proof (cases "n > 1 \<and> n smod 2 = 0")
      case True
      with twos show ?thesis by (simp add: result1_def)
    next
      case False
      then have "count_twos n 0 = (n, 0)" by (subst count_twos.simps) auto
      with twos False show ?thesis by (auto simp: result1_def)
    qed
    have factor_twos: "Factor_twos n [] = (n1, expand result1)"
    proof (cases "n > 1 \<and> n smod 2 = 0")
      case True
      with twos show ?thesis by (simp add: result1_def expand_def)
    next
      case False
      then have "Factor_twos n [] = (n, [])" by (subst Factor_twos.simps) auto
      with twos False show ?thesis by (auto simp: result1_def)
    qed
    from FactorUnique_loop_result [of 3 sieve n1 result1] obtain res where
      res: "FactorUnique_loop sieve 3 n1 result1 = Some res"
        "Factor_loop sieve 3 n1 (expand result1)
           = Some (map_sum id (\<lambda>(n', result'). (n', expand result')) res)"
      by auto
    show ?thesis
    proof (cases res)
      case (Inl e)
      with 3 res unique_twos factor_twos show ?thesis
        by (simp add: FactorUnique_def Factor_def)
    next
      case (Inr pair)
      obtain n2 result2 where "pair = (n2, result2)" by (cases pair)
      with Inr 3 res unique_twos factor_twos show ?thesis
        by (simp add: FactorUnique_def Factor_def)
    qed
  qed
qed

lemma Factor_result:
  assumes "3 < n" "n \<le> mul_int (size_sieve sieve) (size_sieve sieve)"
  shows "\<exists>res. Factor sieve n = Some res
           \<and> (\<forall>fs. res = Inr fs \<longrightarrow> prod_list fs = n \<and> fs \<noteq> [])
           \<and> ((\<forall>k. k \<le> size_sieve sieve \<longrightarrow> (\<exists>b. Prime sieve k = Some (Inr b))) \<longrightarrow> (\<exists>fs. res = Inr fs))"
proof -
  from twos_result [of n 0 "[]"] obtain n1 c where
    twos: "Factor_twos n [] = (n1, replicate (nat c) 2)" "n = n1 * 2 ^ nat c"
    by auto
  from Factor_loop_result [of 3 sieve n1 "replicate (nat c) 2"] obtain res where
    res: "Factor_loop sieve 3 n1 (replicate (nat c) 2) = Some res"
      "\<forall>n' result'. res = Inr (n', result') \<longrightarrow>
         n' * prod_list result' = n1 * prod_list (replicate (nat c) 2) \<and> (1 \<le> n1 \<longrightarrow> 1 \<le> n')"
      "(\<forall>k. k \<le> size_sieve sieve \<longrightarrow> (\<exists>b. Prime sieve k = Some (Inr b))) \<longrightarrow> (\<exists>n' result'. res = Inr (n', result'))"
    by force
  show ?thesis
  proof (cases res)
    case (Inl e)
    with assms twos res show ?thesis by (auto simp: Factor_def)
  next
    case (Inr pair)
    obtain n2 result2 where pair: "pair = (n2, result2)" by (cases pair)
    with Inr res(2) twos(2) have prod: "n2 * prod_list result2 = n"
      by (simp add: prod_list_replicate)
    have "Factor sieve n = Some (Inr (if n2 > 1 then result2 @ [n2] else result2))"
      using assms twos res(1) Inr pair by (simp add: Factor_def)
    moreover have "prod_list (if n2 > 1 then result2 @ [n2] else result2) = n"
    proof (cases "n2 > 1")
      case True
      with prod show ?thesis by (simp add: mult.commute)
    next
      case False
      have "n2 = 1"
      proof (rule ccontr)
        assume "n2 \<noteq> 1"
        with False have "n2 \<le> 0" by simp
        from twos_result [of n 0 "[]"] twos(1) assms(1) have "1 \<le> n1" by auto
        with res(2) Inr pair have "1 \<le> n2" by simp
        with \<open>n2 \<le> 0\<close> show False by simp
      qed
      with prod False show ?thesis by simp
    qed
    moreover from this assms(1) have "(if n2 > 1 then result2 @ [n2] else result2) \<noteq> []"
      by (cases "n2 > 1") auto
    ultimately show ?thesis by simp
  qed
qed

lemma DivisorCount_result:
  assumes "n \<le> mul_int (size_sieve sieve) (size_sieve sieve)"
  shows "\<exists>res. DivisorCount sieve n = Some res
           \<and> (\<forall>m. res = Inr m \<longrightarrow> 1 \<le> m)
           \<and> ((\<forall>k. k \<le> size_sieve sieve \<longrightarrow> (\<exists>b. Prime sieve k = Some (Inr b))) \<longrightarrow> (\<exists>m. res = Inr m))"
proof (cases "n = 1")
  case True
  with assms show ?thesis by (simp add: DivisorCount_def)
next
  case False
  from twos_result [of n 0 "[]"] obtain n1 c where
    twos: "count_twos n 0 = (n1, c)" "0 \<le> c"
    by auto
  define start where "start = (if n > 1 \<and> n smod 2 = 0
                  then (case count_twos n 0 of (n1, count) \<Rightarrow> (n1, 1 * (count + 1)))
                  else (n, 1))"
  obtain n1' m1 where start_eq: "start = (n1', m1)" by (cases start)
  with twos have "1 \<le> m1" by (auto simp: start_def split: if_splits)
  from DivisorCount_loop_result [of 3 sieve n1' m1] obtain res where
    res: "DivisorCount_loop sieve 3 n1' m1 = Some res"
      "\<forall>n' m'. res = Inr (n', m') \<longrightarrow> (1 \<le> m1 \<longrightarrow> 1 \<le> m')"
      "(\<forall>k. k \<le> size_sieve sieve \<longrightarrow> (\<exists>b. Prime sieve k = Some (Inr b))) \<longrightarrow> (\<exists>n' m'. res = Inr (n', m'))"
    by force
  have unfold: "DivisorCount sieve n = (case DivisorCount_loop sieve 3 n1' m1 of
                   None \<Rightarrow> None
                 | Some (Inl e) \<Rightarrow> Some (Inl e)
                 | Some (Inr (n2, m2)) \<Rightarrow>
                     Some (Inr (if n2 > 1 then m2 * (1 + 1) else m2)))"
    using assms False start_eq unfolding DivisorCount_def start_def [symmetric] by simp
  show ?thesis
  proof (cases res)
    case (Inl e)
    with res unfold show ?thesis by auto
  next
    case (Inr pair)
    obtain n2 m2 where pair: "pair = (n2, m2)" by (cases pair)
    with Inr res(2) \<open>1 \<le> m1\<close> have "1 \<le> m2" by simp
    with Inr pair res(1) unfold show ?thesis by simp
  qed
qed


section \<open>Factor away from the square of the size\<close>

lemma Factor_strip_remainder:
  assumes "2 \<le> d" "Factor_strip d n result = Some (n', result')"
  shows "\<not> (n' > 1 \<and> n' smod d = 0)"
  using assms(2)
proof (induction "nat n" arbitrary: n result rule: less_induct)
  case less
  show ?case
  proof (cases "n > 1 \<and> n smod d = 0")
    case False
    then have "Factor_strip d n result = Some (n, result)"
      by (subst Factor_strip.simps) auto
    with less.prems False show ?thesis by simp
  next
    case True
    with assms(1) have "nat (n sdiv d) < nat n"
      using sdiv_less_self [of n d] by simp
    moreover from True less.prems have "Factor_strip d (n sdiv d) (result @ [d]) = Some (n', result')"
      by (subst (asm) Factor_strip.simps) simp
    ultimately show ?thesis by (rule less.hyps)
  qed
qed

lemma Factor_twos_remainder:
  assumes "Factor_twos n result = (n', result')"
  shows "\<not> (n' > 1 \<and> n' smod 2 = 0)"
  using assms
proof (induction n result rule: Factor_twos.induct)
  case (1 n result)
  show ?case
  proof (cases "n > 1 \<and> n smod 2 = 0")
    case False
    then have "Factor_twos n result = (n, result)"
      by (subst Factor_twos.simps) auto
    with "1.prems" False show ?thesis by simp
  next
    case True
    with "1.prems" have "Factor_twos (drop_bit 1 n) (result @ [2]) = (n', result')"
      by (subst (asm) Factor_twos.simps) simp
    with True show ?thesis by (intro "1.IH") simp_all
  qed
qed

lemma no_divisor_belowD: "no_divisor_below d n \<Longrightarrow> 1 < q \<Longrightarrow> q < d \<Longrightarrow> \<not> q dvd n"
  by (auto simp: no_divisor_below_def)

lemma no_divisor_below_factor:
  assumes "no_divisor_below d n" "n' dvd n"
  shows "no_divisor_below d n'"
  using assms unfolding no_divisor_below_def by (meson dvd_trans)

lemma no_divisor_below_step:
  assumes "no_divisor_below d n" "odd d" "3 \<le> d" "n' = 1 \<or> \<not> d dvd n'" "n' dvd n"
  shows "no_divisor_below (d + 2) n'"
  unfolding no_divisor_below_def
proof
  fix q assume q: "q \<in> {2..<d + 2}"
  from assms(1,5) have below: "no_divisor_below d n'" by (rule no_divisor_below_factor)
  from assms(1,3) have "\<not> 2 dvd n" by (auto simp: no_divisor_below_def)
  with assms(5) have "odd n'" by (meson dvd_trans)
  show "\<not> q dvd n'"
  proof
    assume dvd: "q dvd n'"
    from q consider "q < d" | "q = d" | "q = d + 1" by fastforce
    then show False
    proof cases
      case 1
      with q dvd below show False by (auto simp: no_divisor_below_def)
    next
      case 2
      with assms(4) dvd have "n' = 1" by auto
      with dvd q show False by simp
    next
      case 3
      with assms(2) have "even q" by simp
      with dvd \<open>odd n'\<close> show False by (meson dvd_trans)
    qed
  qed
qed

lemma no_divisor_below_composite:
  assumes "no_divisor_below d n" "\<not> is_prime d" "1 < d"
  shows "\<not> d dvd n"
proof
  assume "d dvd n"
  from assms(2,3) obtain q where q: "1 < q" "q < d" "q dvd d"
    by (auto simp: is_prime_iff)
  from q(3) \<open>d dvd n\<close> have "q dvd n" by (rule dvd_trans)
  with assms(1) q show False by (auto dest: no_divisor_belowD)
qed

lemma no_divisor_below_prime:
  assumes "no_divisor_below d n" "n < d * d" "1 < n" "0 < d"
  shows "is_prime n \<and> d \<le> n"
proof
  show "is_prime n"
  proof (rule ccontr)
    assume "\<not> is_prime n"
    with small_prime_divisor [OF assms(3)] obtain p where
      p: "is_prime p" "p dvd n" "p * p \<le> n" by blast
    have "p < d"
    proof (rule ccontr)
      assume "\<not> p < d"
      with assms(4) have "d * d \<le> p * p" by (intro mult_mono) simp_all
      with p(3) assms(2) show False by simp
    qed
    moreover from p(1) have "1 < p" by (simp add: is_prime_iff)
    ultimately show False using assms(1) p(2) by (auto dest: no_divisor_belowD)
  qed
  show "d \<le> n"
  proof (rule ccontr)
    assume "\<not> d \<le> n"
    with assms(1,3) have "\<not> n dvd n" by (auto dest: no_divisor_belowD)
    then show False by simp
  qed
qed

lemma no_divisor_below_mono: "no_divisor_below d n \<Longrightarrow> d' \<le> d \<Longrightarrow> no_divisor_below d' n"
  by (auto simp: no_divisor_below_def)

lemma no_divisor_below_back: "no_divisor_below (d + 2) n \<Longrightarrow> no_divisor_below d n"
  by (auto simp: no_divisor_below_def)

lemma prod_list_primes_ge1: "\<forall>p \<in> set ps. is_prime p \<Longrightarrow> 1 \<le> prod_list ps"
proof (induction ps)
  case Nil
  show ?case by simp
next
  case (Cons p ps)
  then have "1 \<le> p" "1 \<le> prod_list ps" by (simp_all add: is_prime_iff)
  then have "1 * 1 \<le> p * prod_list ps" by (intro mult_mono) simp_all
  then show ?case by simp
qed

lemma Factor_loop_correct:
  assumes "sieved sieve" "0 \<le> size_sieve sieve" "odd d" "3 \<le> d" "1 \<le> n"
    "no_divisor_below d n" "\<forall>p \<in> set result. is_prime p \<and> p < d" "sorted result"
  shows "\<exists>n' result'. Factor_loop sieve d n result = Some (Inr (n', result'))
           \<and> n' * prod_list result' = n * prod_list result \<and> 1 \<le> n'
           \<and> sorted result' \<and> (\<forall>p \<in> set result'. is_prime p)
           \<and> no_divisor_below d n'
           \<and> (n' = 1 \<or> is_prime n' \<and> (\<forall>p \<in> set result'. p < n')
                \<or> size_sieve sieve * size_sieve sieve \<le> n'
                  \<and> no_divisor_below (size_sieve sieve) n')"
  using assms(3-)
proof (induction "nat (size_sieve sieve - d)" arbitrary: d n result rule: less_induct)
  case less
  note prems = less.prems
  show ?case
  proof (cases "d < size_sieve sieve \<and> mul_int d d \<le> n")
    case False
    have res: "Factor_loop sieve d n result = Some (Inr (n, result))"
      using False by (subst Factor_loop.simps) auto
    have "n = 1 \<or> is_prime n \<and> (\<forall>p \<in> set result. p < n)
            \<or> size_sieve sieve * size_sieve sieve \<le> n \<and> no_divisor_below (size_sieve sieve) n"
    proof (cases "n < d * d")
      case True
      show ?thesis
      proof (cases "n = 1")
        case False
        with prems(3) have "1 < n" by simp
        with no_divisor_below_prime [OF prems(4) True] prems(2) have "is_prime n" "d \<le> n"
          by simp_all
        with prems(5) show ?thesis by fastforce
      qed simp
    next
      case large: False
      with False mul_int_self_le [of d] have ge: "size_sieve sieve \<le> d" by simp
      with assms(2) have "size_sieve sieve * size_sieve sieve \<le> d * d"
        by (intro mult_mono) simp_all
      with large ge prems(4) show ?thesis
        by (auto intro: no_divisor_below_mono)
    qed
    with res prems show ?thesis by simp
  next
    case True
    then have meas: "nat (size_sieve sieve - (d + 2)) < nat (size_sieve sieve - d)" by simp
    from prems have d2: "odd (d + 2)" "3 \<le> d + 2" by simp_all
    note cond = True
    from True assms(1,2) have Prime: "Prime sieve d = Some (Inr (is_prime d))"
      by (intro Prime_in_range) simp_all
    show ?thesis
    proof (cases "is_prime d")
      case False
      with cond Prime have step: "Factor_loop sieve d n result = Factor_loop sieve (d + 2) n result"
        by (subst Factor_loop.simps) simp
      from no_divisor_below_composite [OF prems(4) False] prems(2) have "\<not> d dvd n" by simp
      with prems have below: "no_divisor_below (d + 2) n"
        by (intro no_divisor_below_step [of d n]) simp_all
      from prems(5) have "\<forall>p \<in> set result. is_prime p \<and> p < d + 2" by auto
      from less.hyps [OF meas d2 prems(3) below this prems(6)]
      show ?thesis
        unfolding step by (auto intro: no_divisor_below_back)
    next
      case prime: True
      from prems(2) have "2 \<le> d" by simp
      from strip_result [OF this, of n 0 result] obtain n1 c where
        strip: "Factor_strip d n result = Some (n1, result @ replicate (nat c) d)"
          "n = n1 * d ^ nat c" "1 \<le> n1"
        using prems(3) by auto
      from Factor_strip_remainder [OF \<open>2 \<le> d\<close> strip(1)] strip(3) prems(2)
      have rem: "n1 = 1 \<or> \<not> d dvd n1"
        by (cases "n1 = 1") (simp_all add: smod_eq_0_iff)
      from strip(2) have dvd: "n1 dvd n" by simp
      from cond Prime prime strip(1)
      have step: "Factor_loop sieve d n result
                    = Factor_loop sieve (d + 2) n1 (result @ replicate (nat c) d)"
        by (subst Factor_loop.simps) simp
      have below: "no_divisor_below (d + 2) n1"
        using prems(4,1,2) rem dvd by (rule no_divisor_below_step)
      have elems: "\<forall>p \<in> set (result @ replicate (nat c) d). is_prime p \<and> p < d + 2"
        using prems(5) prime by auto
      have sorted: "sorted (result @ replicate (nat c) d)"
        using prems(5,6) by (auto simp: sorted_append)
      have prod: "n1 * prod_list (result @ replicate (nat c) d) = n * prod_list result"
        using strip(2) by (simp add: prod_list_replicate)
      from less.hyps [OF meas d2 strip(3) below elems sorted]
      show ?thesis
        unfolding step prod by (auto intro: no_divisor_below_back)
    qed
  qed
qed

lemma Factor_correct_except_square:
  assumes "sieved sieve" "0 \<le> size_sieve sieve" "2 \<le> n"
    "n \<le> mul_int (size_sieve sieve) (size_sieve sieve)"
    "\<not> (n = size_sieve sieve * size_sieve sieve \<and> odd (size_sieve sieve)
          \<and> is_prime (size_sieve sieve))"
  shows "\<exists>fs. Factor sieve n = Some (Inr fs) \<and> prod_list fs = n \<and> sorted fs
           \<and> (\<forall>p \<in> set fs. is_prime p)"
proof (cases "n \<le> 3")
  case True
  from True assms(3) have "n = 2 \<or> n = 3" by auto
  then have "is_prime n" by (auto simp: is_prime_2 is_prime_3)
  with True assms(4) show ?thesis by (simp add: Factor_def)
next
  case False
  from assms(4) mul_int_self_le [of "size_sieve sieve"]
  have square: "n \<le> size_sieve sieve * size_sieve sieve" by simp
  from twos_result [of n 0 "[]"] obtain n1 c where
    twos: "Factor_twos n [] = (n1, replicate (nat c) 2)" "n = n1 * 2 ^ nat c" "1 \<le> n1"
    using assms(3) by auto
  from Factor_twos_remainder [OF twos(1)] twos(3) have "n1 = 1 \<or> odd n1"
    by (cases "n1 = 1") (simp_all add: smod_eq_0_iff)
  then have "\<not> 2 dvd n1" by auto
  moreover have "{2..<3} = {2::int}" by auto
  ultimately have below: "no_divisor_below 3 n1"
    by (simp add: no_divisor_below_def)
  have "\<forall>p \<in> set (replicate (nat c) 2). is_prime p \<and> p < 3"
    by (simp add: is_prime_2)
  from Factor_loop_correct [OF assms(1,2) _ _ twos(3) below this]
  obtain n2 result2 where loop:
    "Factor_loop sieve 3 n1 (replicate (nat c) 2) = Some (Inr (n2, result2))"
    "n2 * prod_list result2 = n" "1 \<le> n2" "sorted result2" "\<forall>p \<in> set result2. is_prime p"
    "no_divisor_below 3 n2"
    "n2 = 1 \<or> is_prime n2 \<and> (\<forall>p \<in> set result2. p < n2)
       \<or> size_sieve sieve * size_sieve sieve \<le> n2 \<and> no_divisor_below (size_sieve sieve) n2"
    using twos(2) by (auto simp: prod_list_replicate)
  have Factor: "Factor sieve n = Some (Inr (if n2 > 1 then result2 @ [n2] else result2))"
    using False assms(4) twos(1) loop(1) by (simp add: Factor_def)
  have edge: False
    if "size_sieve sieve * size_sieve sieve \<le> n2" "no_divisor_below (size_sieve sieve) n2"
  proof -
    from loop(5) have "1 \<le> prod_list result2" by (rule prod_list_primes_ge1)
    with loop(3) have "n2 * 1 \<le> n2 * prod_list result2" by (intro mult_left_mono) simp_all
    with loop(2) that(1) square have eq: "n2 = size_sieve sieve * size_sieve sieve" "n = n2"
      by simp_all
    from False eq assms(2) have size: "1 < size_sieve sieve"
      by (cases "size_sieve sieve = 0 \<or> size_sieve sieve = 1") auto
    from loop(6) have "\<not> 2 dvd n2" by (auto simp: no_divisor_below_def)
    with eq have odd: "odd (size_sieve sieve)" by simp
    with eq assms(5) have "\<not> is_prime (size_sieve sieve)" by simp
    with size obtain q where "1 < q" "q < size_sieve sieve" "q dvd size_sieve sieve"
      by (auto simp: is_prime_iff)
    with that(2) eq show False
      by (auto dest!: no_divisor_belowD [of _ _ q])
  qed
  from loop(7) show ?thesis
  proof (elim disjE conjE)
    assume "n2 = 1"
    with Factor loop show ?thesis by simp
  next
    assume "is_prime n2" "\<forall>p \<in> set result2. p < n2"
    moreover from this have "1 < n2" by (simp add: is_prime_iff)
    ultimately show ?thesis
      using Factor loop by (auto simp: sorted_append mult.commute intro: less_imp_le)
  next
    assume "size_sieve sieve * size_sieve sieve \<le> n2" "no_divisor_below (size_sieve sieve) n2"
    then show ?thesis using edge by simp
  qed
qed

section \<open>The examples of the package\<close>

text \<open>
  The examples of the package's test file, on the sieve of size 10: the factors, the
  factors with their counts and the square-free numbers from 2 to 10, and the count of
  primes; and the example of the comment of \<^verbatim>\<open>DivisorCount\<close>.
\<close>

lemma ExampleSieve_Factor:
  "map (New_query 10 Factor) [2..10]
     = map (Some \<circ> Inr) [[2], [3], [2, 2], [5], [2, 3], [7], [2, 2, 2], [3, 3], [2, 5]]"
  by code_simp

lemma ExampleSieve_FactorUnique:
  "map (New_query 10 FactorUnique) [2..10]
     = map (Some \<circ> Inr \<circ> map (\<lambda>(p, k). \<lparr>Factor_u = p, Count_u = k\<rparr>))
         [[(2, 1)], [(3, 1)], [(2, 2)], [(5, 1)], [(2, 1), (3, 1)], [(7, 1)], [(2, 3)],
          [(3, 2)], [(2, 1), (5, 1)]]"
  by code_simp

lemma ExampleSieve_SquareFree:
  "map (New_query 10 SquareFree) [2..10]
     = map (Some \<circ> Inr) [True, True, False, True, True, True, False, False, True]"
  by code_simp

lemma ExampleSieve_Count:
  "(case New 10 of Some (Inr sieve) \<Rightarrow> map_sum id fst (Count sieve)) = Inr 4"
  by code_simp

lemma DivisorCount_examples:
  "map (New_query 10 DivisorCount) [1, 6] = [Some (Inr 1), Some (Inr 4)]"
  by code_simp

section \<open>A prime above the 32nd power of 2\<close>

text \<open>
  4294967311 is prime: it is odd, and no odd number from 3 to 65535 divides it, while
  the square of 65537 is above it. The divisions are done in four parts.
\<close>

lemma no_odd_divisorD:
  assumes "no_odd_divisor n d e" "odd d" "odd q" "d \<le> q" "q \<le> e"
  shows "\<not> q dvd n"
  using assms(1,2,4)
proof (induction "nat (e + 1 - d)" arbitrary: d rule: less_induct)
  case less
  from less.prems(3) assms(5) have "\<not> e < d" by simp
  with less.prems(1) have here: "n mod d \<noteq> 0" and rest: "no_odd_divisor n (d + 2) e"
    by (subst (asm) no_odd_divisor.simps; simp split: if_splits)+
  show ?case
  proof (cases "q = d")
    case True
    with here show ?thesis by (simp add: dvd_eq_mod_eq_0)
  next
    case False
    with less.prems(2,3) assms(3) have "d + 2 \<le> q" by presburger
    moreover from \<open>\<not> e < d\<close> have "nat (e + 1 - (d + 2)) < nat (e + 1 - d)" by simp
    ultimately show ?thesis using rest less.prems(2) by (intro less.hyps) simp_all
  qed
qed

lemma no_odd_divisor_part1: "no_odd_divisor 4294967311 3 16383"
  by code_simp

lemma no_odd_divisor_part2: "no_odd_divisor 4294967311 16385 32767"
  by code_simp

lemma no_odd_divisor_part3: "no_odd_divisor 4294967311 32769 49151"
  by code_simp

lemma no_odd_divisor_part4: "no_odd_divisor 4294967311 49153 65535"
  by code_simp

lemma is_prime_4294967311: "is_prime 4294967311"
proof (rule ccontr)
  assume "\<not> is_prime 4294967311"
  with small_prime_divisor [of 4294967311] obtain p where
    p: "is_prime p" "p dvd 4294967311" "p * p \<le> 4294967311"
    by auto
  from p(2) have "p \<noteq> 2" by auto
  with p(1) have odd: "odd p" and low: "3 \<le> p" using is_prime_odd [of p] by simp_all
  from p(3) have "p < 65537" by (intro square_less_imp_less [of p 4294967311]) simp_all
  moreover from odd have "p \<noteq> 16384" "p \<noteq> 32768" "p \<noteq> 49152" "p \<noteq> 65536" by auto
  ultimately consider "p \<le> 16383" | "16385 \<le> p" "p \<le> 32767"
    | "32769 \<le> p" "p \<le> 49151" | "49153 \<le> p" "p \<le> 65535"
    by linarith
  then have "\<not> p dvd 4294967311"
  proof cases
    case 1
    with low odd show ?thesis by (intro no_odd_divisorD [OF no_odd_divisor_part1]) simp_all
  next
    case 2
    with odd show ?thesis by (intro no_odd_divisorD [OF no_odd_divisor_part2]) simp_all
  next
    case 3
    with odd show ?thesis by (intro no_odd_divisorD [OF no_odd_divisor_part3]) simp_all
  next
    case 4
    with odd show ?thesis by (intro no_odd_divisorD [OF no_odd_divisor_part4]) simp_all
  qed
  with p(2) show False by simp
qed

section \<open>The claims\<close>

text \<open>
  Each claim about the package is stated on the functions above. \<open>New sz\<close> returning
  \<open>Some (Inr sieve)\<close> says that the construction ends, without a panic, with that sieve;
  a query returning \<open>Some (Inr r)\<close> says that it ends, without a panic, with \<open>r\<close>.
  3037000499 is the largest number whose square fits Go's 64-bit \<^verbatim>\<open>int\<close>.
\<close>

text \<open>
  C1, as the code has it. For a sieve built by \<open>New sz\<close> with \<open>0 \<le> sz\<close>, \<open>Prime n\<close> is
  true exactly when \<open>n\<close> is prime, for every \<open>n \<ge> 0\<close> up to \<open>sz\<close>, and for every \<open>n \<ge> 0\<close>
  up to the product \<open>sz * sz\<close> as the code computes it, in 64 bits, and below the square
  of 3037000499. For \<open>sz \<le> 3037000499\<close> that product is \<open>sz * sz\<close>, so these are all
  \<open>n\<close> from 0 to \<open>sz * sz\<close>, but for the square of 3037000499 itself. For odd \<open>n\<close> from 3
  to \<open>sz\<close> the answer is the table's: prime iff the bit is unset. For odd \<open>n\<close> above
  \<open>sz\<close> the loop ends with \<open>root\<close>, the integer square root of \<open>n\<close>, and the answer is
  that \<open>n\<close> is no perfect square and no odd \<open>d\<close> from 3 to \<open>root\<close> with an unset bit
  divides \<open>n\<close>.
\<close>

theorem Prime_correct:
  assumes "0 \<le> sz"
  shows "\<exists>sieve. New sz = Some (Inr sieve)
           \<and> (\<forall>n. 0 \<le> n \<and> (n \<le> sz \<or> n \<le> mul_int sz sz \<and> n < 3037000499 * 3037000499)
                 \<longrightarrow> Prime sieve n = Some (Inr (is_prime n)))
           \<and> (sz \<le> 3037000499 \<longrightarrow> mul_int sz sz = sz * sz
                 \<and> (\<forall>n. 0 \<le> n \<and> n \<le> sz * sz \<and> n \<noteq> 3037000499 * 3037000499
                       \<longrightarrow> Prime sieve n = Some (Inr (is_prime n))))
           \<and> (\<forall>n. odd n \<and> 3 \<le> n \<and> n \<le> sz
                 \<longrightarrow> Prime sieve n = Some (Inr (bit_sieve sieve n = Inr 0)))
           \<and> (\<forall>n. odd n \<and> 3 \<le> n \<and> sz < n \<and> n \<le> mul_int sz sz
                   \<and> n < 3037000499 * 3037000499 \<longrightarrow>
                 (\<exists>root. Prime_root n 1 = Some root
                    \<and> root * root \<le> n \<and> n < (root + 1) * (root + 1)
                    \<and> Prime sieve n = Some (Inr (root * root \<noteq> n \<and>
                      (\<forall>d. odd d \<and> 3 \<le> d \<and> d \<le> root \<and> bit_sieve sieve d = Inr 0
                           \<longrightarrow> \<not> d dvd n)))))"
proof -
  from New_result [OF assms] obtain sieve where
    sieve: "New sz = Some (Inr sieve)" "size_sieve sieve = sz" "sieved sieve"
    by blast
  have range: "Prime sieve n = Some (Inr (is_prime n))"
    if "n \<le> sz \<or> n \<le> mul_int sz sz \<and> n < 3037000499 * 3037000499" for n
    using sieve assms that by (intro Prime_in_range) simp_all
  have exact: "mul_int sz sz = sz * sz" if "sz \<le> 3037000499"
    using assms that by (intro mul_int_exact) simp_all
  have fits: "Prime sieve n = Some (Inr (is_prime n))"
    if "sz \<le> 3037000499" and n: "0 \<le> n \<and> n \<le> sz * sz \<and> n \<noteq> 3037000499 * 3037000499"
    for n
  proof -
    from assms that(1) have "sz * sz \<le> 3037000499 * 3037000499" by (intro mult_mono) simp_all
    with n have "n < 3037000499 * 3037000499" by linarith
    with n exact [OF that(1)] show ?thesis by (intro range) simp
  qed
  have lookup: "Prime sieve n = Some (Inr (bit_sieve sieve n = Inr 0))"
    if "odd n \<and> 3 \<le> n \<and> n \<le> sz" for n
    using that sieve by (simp add: range sieved_bit_unset)
  have trial: "\<exists>root. Prime_root n 1 = Some root
                    \<and> root * root \<le> n \<and> n < (root + 1) * (root + 1)
                    \<and> Prime sieve n = Some (Inr (root * root \<noteq> n \<and>
                      (\<forall>d. odd d \<and> 3 \<le> d \<and> d \<le> root \<and> bit_sieve sieve d = Inr 0
                           \<longrightarrow> \<not> d dvd n)))"
    if n: "odd n \<and> 3 \<le> n \<and> sz < n \<and> n \<le> mul_int sz sz \<and> n < 3037000499 * 3037000499"
    for n
  proof -
    from n have below: "n < 3037000499 * 3037000499" and "1 * 1 \<le> n" by simp_all
    from Prime_root_bounds [OF this(2) _ below] obtain root where
      root: "Prime_root n 1 = Some root" "1 \<le> root" "root * root \<le> n"
        "n < (root + 1) * (root + 1)"
      by auto
    from n mul_int_self_le [of sz] have "n \<le> sz * sz" by simp
    with root(3) have "root * root \<le> sz * sz" by simp
    from this assms have root_le: "root \<le> sz" by (rule square_le_imp_le)
    from root(3) below have "root < 3037000499"
      by (intro square_less_imp_less [of root n]) simp_all
    with root(2) have "mul_int root root = root * root" by (intro mul_int_exact) simp_all
    then have Prime: "Prime sieve n =
                   (if root * root = n then Some (Inr False) else Some (Prime_trial sieve n root 3))"
      using n sieve(2) root(1) by (simp add: Prime_def and_1_eq_0_iff)
    have trial: "Prime_trial sieve n root 3 = Inr (\<not> (\<exists>p. is_prime p \<and> 3 \<le> p \<and> p \<le> root \<and> p dvd n))"
      using sieve root_le n by (intro Prime_trial_result) simp_all
    have "(\<exists>p. is_prime p \<and> 3 \<le> p \<and> p \<le> root \<and> p dvd n)
        \<longleftrightarrow> (\<exists>d. odd d \<and> 3 \<le> d \<and> d \<le> root \<and> bit_sieve sieve d = Inr 0 \<and> d dvd n)"
      (is "?L \<longleftrightarrow> ?R")
    proof
      assume ?L
      then obtain p where p: "is_prime p" "3 \<le> p" "p \<le> root" "p dvd n" by blast
      from p(1,2) have "odd p" using is_prime_odd [of p] by simp
      moreover from p(3) root_le sieve(2) have "p \<le> size_sieve sieve" by simp
      ultimately have "bit_sieve sieve p = Inr 0"
        using sieve(3) p(1,2) by (simp add: sieved_bit_unset)
      with p \<open>odd p\<close> show ?R by blast
    next
      assume ?R
      then obtain d where d: "odd d" "3 \<le> d" "d \<le> root" "bit_sieve sieve d = Inr 0" "d dvd n"
        by blast
      from d(3) root_le sieve(2) have "d \<le> size_sieve sieve" by simp
      with d sieve(3) have "is_prime d" by (simp add: sieved_bit_unset)
      with d show ?L by blast
    qed
    then have "Prime_trial sieve n root 3 =
        Inr (\<forall>d. odd d \<and> 3 \<le> d \<and> d \<le> root \<and> bit_sieve sieve d = Inr 0 \<longrightarrow> \<not> d dvd n)"
      unfolding trial by blast
    with root Prime show ?thesis by simp
  qed
  from sieve(1) range exact fits lookup trial show ?thesis by blast
qed

theorem Prime_correct_witness:
  "(0::int) \<le> 10 \<and> (\<exists>sieve. New 10 = Some (Inr sieve)
      \<and> Prime sieve 97 = Some (Inr True) \<and> Prime sieve 91 = Some (Inr False)
      \<and> Prime sieve 49 = Some (Inr False) \<and> Prime sieve 7 = Some (Inr True)
      \<and> Prime sieve 9 = Some (Inr False) \<and> Prime sieve 2 = Some (Inr True)
      \<and> Prime sieve 1 = Some (Inr False) \<and> Prime sieve 0 = Some (Inr False))
      \<and> mul_int 10 10 = 10 * 10"
proof -
  have "is_prime 97" "\<not> is_prime 91" "\<not> is_prime 49" "is_prime 7" "\<not> is_prime 9"
    "is_prime 2" "\<not> is_prime 1" "\<not> is_prime 0"
    by code_simp+
  moreover have product: "mul_int 10 10 = 100"
    by (simp add: mul_int_def int64_def)
  moreover have "(0::int) \<le> 10" by simp
  moreover from Prime_correct [OF this] obtain sieve where
    "New 10 = Some (Inr sieve)"
    "\<forall>n. 0 \<le> n \<and> (n \<le> 10 \<or> n \<le> mul_int 10 10 \<and> n < 3037000499 * 3037000499)
         \<longrightarrow> Prime sieve n = Some (Inr (is_prime n))"
    by blast
  ultimately show ?thesis
    by (intro conjI exI [of _ sieve]) simp_all
qed

text \<open>
  C1 as written fails where the square of the size does not fit 64 bits. For the size
  4294967296 the code's product \<^verbatim>\<open>sieve.size*sieve.size\<close> is 0: the prime 4294967311 is
  above the size and far below its square, and \<open>Prime\<close> returns false.
\<close>

theorem Prime_size_square_wraps:
  "(0::int) \<le> 4294967296 \<and> (0::int) \<le> 4294967311
     \<and> (4294967311::int) \<le> 4294967296 * 4294967296
     \<and> mul_int 4294967296 4294967296 = 0
     \<and> is_prime 4294967311
     \<and> New_query 4294967296 Prime 4294967311 = Some (Inr False)"
proof -
  have product: "mul_int 4294967296 4294967296 = 0"
    by (simp add: mul_int_def int64_def)
  from New_result [of 4294967296] obtain sieve where
    sieve: "New 4294967296 = Some (Inr sieve)" "size_sieve sieve = 4294967296"
    by auto
  from sieve(2) product have "Prime sieve 4294967311 = Some (Inr (4294967311 = (2::int)))"
    by (intro Prime_beyond) simp_all
  with sieve(1) have "New_query 4294967296 Prime 4294967311 = Some (Inr False)"
    by (simp add: New_query_def)
  with product is_prime_4294967311 show ?thesis by simp
qed

text \<open>
  C2. \<open>Factor n\<close> should be the primes of \<open>n\<close> in ascending order for every \<open>n\<close>
  from 2 to the square of the size. The loop runs while \<open>d < size\<close>, so on the sieve of
  size 3 it never tries the divisor 3: 9 is within the range of that sieve and
  \<open>Factor 9\<close> is \<open>[9]\<close>, though 9 is 3 times 3.
\<close>

theorem Factor_misses_divisor_size:
  "New 3 = Some (Inr \<lparr>size_sieve = 3, count_sieve = 0, table_sieve = [0, 0]\<rparr>)
     \<and> (2::int) \<le> 9 \<and> (9::int) \<le> 3 * 3
     \<and> Factor \<lparr>size_sieve = 3, count_sieve = 0, table_sieve = [0, 0]\<rparr> 9 = Some (Inr [9])
     \<and> (9::int) = 3 * 3"
  by code_simp

text \<open>
  Away from that square \<open>Factor\<close> is right: on a sieve built by \<open>New sz\<close> with
  \<open>0 \<le> sz\<close>, for every \<open>n\<close> from 2 to the product \<open>sz * sz\<close> as the code computes it,
  other than the square of an odd prime \<open>sz\<close>, it returns the primes of \<open>n\<close> in
  ascending order. Up to the size 3037000499 that product is \<open>sz * sz\<close>.
\<close>

lemma Factor_correct_except_square_of_size:
  assumes "0 \<le> sz"
  shows "\<exists>sieve. New sz = Some (Inr sieve)
           \<and> (\<forall>n. 2 \<le> n \<and> n \<le> mul_int sz sz \<and> \<not> (n = sz * sz \<and> odd sz \<and> is_prime sz) \<longrightarrow>
                 (\<exists>fs. Factor sieve n = Some (Inr fs) \<and> prod_list fs = n \<and> sorted fs
                    \<and> (\<forall>p \<in> set fs. is_prime p)))
           \<and> (sz \<le> 3037000499 \<longrightarrow> mul_int sz sz = sz * sz)"
proof -
  from New_result [OF assms(1)] obtain sieve where
    sieve: "New sz = Some (Inr sieve)" "size_sieve sieve = sz" "sieved sieve"
    by blast
  have "\<exists>fs. Factor sieve n = Some (Inr fs) \<and> prod_list fs = n \<and> sorted fs
                    \<and> (\<forall>p \<in> set fs. is_prime p)"
    if "2 \<le> n \<and> n \<le> mul_int sz sz \<and> \<not> (n = sz * sz \<and> odd sz \<and> is_prime sz)" for n
    using sieve assms that by (intro Factor_correct_except_square) simp_all
  moreover have "mul_int sz sz = sz * sz" if "sz \<le> 3037000499"
    using assms that by (intro mul_int_exact) simp_all
  ultimately show ?thesis using sieve(1) by blast
qed

text \<open>
  C3. For a sieve built by \<open>New sz\<close> with \<open>0 \<le> sz\<close>, \<open>Count\<close> returns the number of
  primes up to \<open>sz\<close>, which is 0 below 2 and counts the prime 2 from there on; a second
  call, on the sieve the first call leaves, returns the same number.
\<close>

theorem Count_correct:
  assumes "0 \<le> sz"
  shows "\<exists>sieve sieve'. New sz = Some (Inr sieve)
           \<and> Count sieve = Inr (prime_count sz, sieve')
           \<and> Count sieve' = Inr (prime_count sz, sieve')
           \<and> prime_count sz = int (card {p. is_prime p \<and> p \<le> sz})
           \<and> (sz < 2 \<longrightarrow> prime_count sz = 0)
           \<and> (2 \<le> sz \<longrightarrow> prime_count sz = 1 + int (length (filter is_prime [3..sz])))"
proof -
  from New_result [OF assms] obtain sieve where
    sieve: "New sz = Some (Inr sieve)" "size_sieve sieve = sz" "count_sieve sieve = 0"
      "sieved sieve"
    by blast
  define sieve' where "sieve' = sieve\<lparr>count_sieve := prime_count sz\<rparr>"
  have 1: "Count sieve = Inr (prime_count sz, sieve')"
    using Count_result [of sieve] sieve by (simp add: sieve'_def)
  have 2: "Count sieve' = Inr (prime_count sz, sieve')"
    using Count_result [of sieve'] sieve by (simp add: sieve'_def)
  from sieve(1) 1 2 show ?thesis
    by (auto simp: prime_count_small prime_count_odd_primes prime_count_card [symmetric])
qed

theorem Count_correct_witness:
  "(0::int) \<le> 100 \<and> (\<exists>sieve sieve'. New 100 = Some (Inr sieve)
      \<and> Count sieve = Inr (25, sieve') \<and> Count sieve' = Inr (25, sieve'))"
proof -
  have "prime_count 100 = 25" by code_simp
  with Count_correct [of 100] show ?thesis by auto
qed

lemma Count_reference_values:
  "map (\<lambda>sz. case New sz of Some (Inr sieve) \<Rightarrow> map_sum id fst (Count sieve)) [0, 1, 2, 10, 100, 1000]
     = [Inr 0, Inr 0, Inr 1, Inr 4, Inr 25, Inr 168]"
  by code_simp

text \<open>
  C4. For every sieve and every integer \<open>n\<close>, \<open>FactorUnique n\<close> and \<open>Factor n\<close> both
  return, and expanding the pairs of the first, each into \<open>Count\<close> copies of its
  \<open>Factor\<close>, in order, gives the list of the second; if one panics, so does the other.
\<close>

theorem FactorUnique_consistent:
  "\<exists>us. FactorUnique sieve n = Some us \<and> Factor sieve n = Some (map_sum id expand us)"
  by (rule FactorUnique_Factor)

text \<open>
  C5. \<open>DivisorCount n\<close> should be the number of divisors of \<open>n\<close> for every \<open>n\<close> from
  1 to the square of the size. On the sieve of size 3, \<open>DivisorCount 9\<close> is 2, though 9
  has the three divisors 1, 3 and 9: the loop stops before \<open>d = size\<close>, as in \<open>Factor\<close>.
\<close>

theorem DivisorCount_misses_divisor_size:
  "New 3 = Some (Inr \<lparr>size_sieve = 3, count_sieve = 0, table_sieve = [0, 0]\<rparr>)
     \<and> (1::int) \<le> 9 \<and> (9::int) \<le> 3 * 3
     \<and> DivisorCount \<lparr>size_sieve = 3, count_sieve = 0, table_sieve = [0, 0]\<rparr> 9 = Some (Inr 2)
     \<and> (9::int) smod 1 = 0 \<and> (9::int) smod 3 = 0 \<and> (9::int) smod 9 = 0"
  by code_simp

text \<open>
  C6. \<open>SquareFree n\<close> should be true exactly when no prime divides \<open>n\<close> twice, for
  every \<open>n\<close> from 2 to the square of the size. On the sieve of size 3, \<open>SquareFree 9\<close>
  is true, though 3 times 3 divides 9: \<open>Factor 9\<close> is \<open>[9]\<close> there.
\<close>

theorem SquareFree_misses_divisor_size:
  "New 3 = Some (Inr \<lparr>size_sieve = 3, count_sieve = 0, table_sieve = [0, 0]\<rparr>)
     \<and> (2::int) \<le> 9 \<and> (9::int) \<le> 3 * 3
     \<and> SquareFree \<lparr>size_sieve = 3, count_sieve = 0, table_sieve = [0, 0]\<rparr> 9 = Some (Inr True)
     \<and> (9::int) smod (3 * 3) = 0"
  by code_simp

text \<open>
  C7. \<open>New sz\<close> returns a sieve for every \<open>sz\<close> from -22 on. On that sieve, for
  \<open>n \<ge> 1\<close>: \<open>NthPrime 1\<close> is 2. For \<open>n \<ge> 2\<close>, if there are at least \<open>n - 1\<close> primes from
  3 to \<open>sz\<close>, \<open>NthPrime n\<close> is the \<open>n\<close>-th prime: a prime \<open>p \<le> sz\<close> such that exactly
  \<open>n\<close> primes are at most \<open>p\<close>. Otherwise \<open>NthPrime n\<close> is 0.
\<close>

theorem NthPrime_correct:
  assumes "- 22 \<le> sz" "1 \<le> n"
  shows "\<exists>sieve. New sz = Some (Inr sieve)
           \<and> (n = 1 \<longrightarrow> NthPrime sieve n = Some (Inr 2))
           \<and> (2 \<le> n \<and> n - 1 \<le> int (length (filter is_prime [3..sz])) \<longrightarrow>
                (\<exists>p. NthPrime sieve n = Some (Inr p) \<and> is_prime p \<and> p \<le> sz
                   \<and> prime_count p = n))
           \<and> (2 \<le> n \<and> \<not> n - 1 \<le> int (length (filter is_prime [3..sz])) \<longrightarrow>
                NthPrime sieve n = Some (Inr 0))"
proof (cases "0 \<le> sz")
  case False
  with New_negative [of sz] assms(1) obtain sieve where
    sieve: "New sz = Some (Inr sieve)" "size_sieve sieve = sz"
    by fastforce
  from False sieve(2) have "NthPrime_loop sieve n 3 1 = Some (Inr 0)"
    by (subst NthPrime_loop.simps) simp
  then have "NthPrime sieve n = Some (Inr (if n = 1 then 2 else 0))"
    by (simp add: NthPrime_def)
  moreover from False have "[3..sz] = []" by simp
  ultimately show ?thesis
    using sieve(1) by auto
next
  case True
  from New_result [OF True] obtain sieve where
    sieve: "New sz = Some (Inr sieve)" "size_sieve sieve = sz" "sieved sieve"
    by blast
  have first: "NthPrime sieve n = Some (Inr 2)" if "n = 1"
    using that by (simp add: NthPrime_def)
  have loop: "\<exists>r. NthPrime sieve n = Some (Inr r) \<and>
           (r = 0 \<and> prime_count sz < n \<or> is_prime r \<and> r \<le> sz \<and> prime_count r = n)"
    if "2 \<le> n"
  proof -
    have "\<exists>r. NthPrime_loop sieve n 3 1 = Some (Inr r) \<and>
           (r = 0 \<and> prime_count (size_sieve sieve) < n
            \<or> is_prime r \<and> r \<le> size_sieve sieve \<and> prime_count r = n)"
      using sieve True that by (intro NthPrime_loop_result) (simp_all add: prime_count_2)
    with that sieve(2) show ?thesis by (simp add: NthPrime_def)
  qed
  have enough: "\<exists>p. NthPrime sieve n = Some (Inr p) \<and> is_prime p \<and> p \<le> sz \<and> prime_count p = n"
    if "2 \<le> n \<and> n - 1 \<le> int (length (filter is_prime [3..sz]))"
  proof -
    from that have "[3..sz] \<noteq> []" by auto
    then have "2 \<le> sz" by simp
    with that have "n \<le> prime_count sz" by (simp add: prime_count_odd_primes)
    with loop that show ?thesis by auto
  qed
  have short: "NthPrime sieve n = Some (Inr 0)"
    if "2 \<le> n \<and> \<not> n - 1 \<le> int (length (filter is_prime [3..sz]))"
  proof -
    from that have "prime_count sz < n" by (simp add: prime_count_odd_primes)
    moreover have "prime_count r \<le> prime_count sz" if "r \<le> sz" for r
      using that by (rule prime_count_mono)
    ultimately show ?thesis using loop that by fastforce
  qed
  from sieve(1) first enough short show ?thesis by blast
qed

theorem NthPrime_correct_witness:
  "(- 22::int) \<le> 30 \<and> (1::int) \<le> 10 \<and> (\<exists>sieve. New 30 = Some (Inr sieve)
      \<and> (\<exists>p. NthPrime sieve 10 = Some (Inr p) \<and> is_prime p \<and> p \<le> 30 \<and> prime_count p = 10))"
proof -
  have "(- 22::int) \<le> 30" "(1::int) \<le> 10" by simp_all
  moreover have "(2::int) \<le> 10 \<and> 10 - 1 \<le> int (length (filter is_prime [3..30]))"
    by code_simp
  ultimately show ?thesis
    using NthPrime_correct [of 30 10] by blast
qed

lemma NthPrime_examples:
  "map (New_query 30 NthPrime) [1, 2, 3, 10, 11]
     = map (Some \<circ> Inr) [2, 3, 5, 29, 0]"
  by code_simp

text \<open>
  C8, as the code has it. For a sieve built by \<open>New sz\<close> and \<open>n\<close> above \<open>sz * sz\<close>:
  \<open>Prime n\<close> is false except for \<open>n = 2\<close>, which the case \<open>n == 2\<close> answers before any
  range check (so only for a size of -1, 0 or 1); \<open>Factor n\<close> and \<open>FactorUnique n\<close> are
  empty, \<open>DivisorCount n\<close> is 0 and \<open>SquareFree n\<close> is false. At the product of the size
  with itself as the code computes it, which is \<open>sz * sz\<close> for every \<open>sz\<close> up to
  3037000499, none of \<open>Factor\<close>, \<open>FactorUnique\<close> and \<open>DivisorCount\<close> returns that
  out-of-range value.
\<close>

theorem out_of_range_results:
  assumes "New sz = Some (Inr sieve)" "sz * sz < n"
  shows "Prime sieve n = Some (Inr (n = 2)) \<and> (n = 2 \<longrightarrow> sz \<in> {- 1, 0, 1})
           \<and> Factor sieve n = Some (Inr []) \<and> FactorUnique sieve n = Some (Inr [])
           \<and> DivisorCount sieve n = Some (Inr 0) \<and> SquareFree sieve n = Some (Inr False)
           \<and> Factor sieve (mul_int sz sz) \<noteq> Some (Inr [])
           \<and> FactorUnique sieve (mul_int sz sz) \<noteq> Some (Inr [])
           \<and> DivisorCount sieve (mul_int sz sz) \<noteq> Some (Inr 0)
           \<and> (sz \<le> 3037000499 \<longrightarrow> mul_int sz sz = sz * sz)"
proof -
  from assms(1) have size: "size_sieve sieve = sz" by (rule New_size)
  with assms(2) have out: "size_sieve sieve * size_sieve sieve < n" by simp
  with mul_int_self_le [of "size_sieve sieve"]
  have wrapped: "mul_int (size_sieve sieve) (size_sieve sieve) < n" by simp
  have small: "sz \<in> {- 1, 0, 1}" if "n = 2"
  proof -
    have "\<not> 2 \<le> \<bar>sz\<bar>"
    proof
      assume "2 \<le> \<bar>sz\<bar>"
      then have "2 * 2 \<le> \<bar>sz\<bar> * \<bar>sz\<bar>" by (intro mult_mono) simp_all
      with assms(2) that show False by simp
    qed
    then show ?thesis by auto
  qed
  have factor: "Factor sieve (mul_int sz sz) \<noteq> Some (Inr [])"
  proof (cases "mul_int sz sz \<le> 3")
    case True
    with size show ?thesis by (simp add: Factor_def)
  next
    case False
    with Factor_result [of "mul_int sz sz" sieve] size show ?thesis by auto
  qed
  have unique: "FactorUnique sieve (mul_int sz sz) \<noteq> Some (Inr [])"
  proof
    assume "FactorUnique sieve (mul_int sz sz) = Some (Inr [])"
    with FactorUnique_Factor [of sieve "mul_int sz sz"] factor show False by simp
  qed
  have divisors: "DivisorCount sieve (mul_int sz sz) \<noteq> Some (Inr 0)"
    using DivisorCount_result [of "mul_int sz sz" sieve] size by auto
  have exact: "mul_int sz sz = sz * sz" if "sz \<le> 3037000499"
  proof -
    from assms(1) have "\<not> sz \<le> - 23" using New_fails_iff [of sz] by simp
    with that show ?thesis by (intro mul_int_exact) simp_all
  qed
  from out wrapped small factor unique divisors exact show ?thesis
    by (simp add: Prime_out_of_range Factor_def FactorUnique_def DivisorCount_def SquareFree_def)
qed

theorem out_of_range_results_witness:
  "New 10 = Some (Inr \<lparr>size_sieve = 10, count_sieve = 0, table_sieve = [16, 0, 0]\<rparr>)
     \<and> (10::int) * 10 < 101
     \<and> Prime \<lparr>size_sieve = 10, count_sieve = 0, table_sieve = [16, 0, 0]\<rparr> 101 = Some (Inr False)
     \<and> Factor \<lparr>size_sieve = 10, count_sieve = 0, table_sieve = [16, 0, 0]\<rparr> 101 = Some (Inr [])
     \<and> FactorUnique \<lparr>size_sieve = 10, count_sieve = 0, table_sieve = [16, 0, 0]\<rparr> 101 = Some (Inr [])
     \<and> DivisorCount \<lparr>size_sieve = 10, count_sieve = 0, table_sieve = [16, 0, 0]\<rparr> 101 = Some (Inr 0)
     \<and> SquareFree \<lparr>size_sieve = 10, count_sieve = 0, table_sieve = [16, 0, 0]\<rparr> 101 = Some (Inr False)
     \<and> Factor \<lparr>size_sieve = 10, count_sieve = 0, table_sieve = [16, 0, 0]\<rparr> (10 * 10) \<noteq> Some (Inr [])"
proof -
  have new: "New 10 = Some (Inr \<lparr>size_sieve = 10, count_sieve = 0, table_sieve = [16, 0, 0]\<rparr>)"
    by code_simp
  moreover have "(10::int) * 10 < 101" by simp
  moreover have product: "mul_int 10 10 = 100" by (simp add: mul_int_def int64_def)
  ultimately show ?thesis
    using out_of_range_results [of 10 "\<lparr>size_sieve = 10, count_sieve = 0, table_sieve = [16, 0, 0]\<rparr>" 101]
    by (simp add: product)
qed

text \<open>
  C8 as written fails: 2 is above the square of the size of the sieve of size 0, and
  \<open>Prime 2\<close> is true there.
\<close>

theorem Prime_2_out_of_range:
  "New 0 = Some (Inr \<lparr>size_sieve = 0, count_sieve = 0, table_sieve = [0]\<rparr>)
     \<and> (0::int) * 0 < 2
     \<and> Prime \<lparr>size_sieve = 0, count_sieve = 0, table_sieve = [0]\<rparr> 2 = Some (Inr True)"
  by code_simp




text \<open>
  C10, as the code has it. For every sieve and every \<open>n \<le> 3\<close> that is at most the
  product of the size with itself as the code computes it, in 64 bits, \<open>Factor n\<close> is
  the one-element list \<open>[n]\<close> and \<open>FactorUnique n\<close> the one pair of \<open>n\<close> with count 1;
  for \<open>n \<le> 1\<close> that element is not a prime. The product is the square of the size for
  every size from -3037000499 to 3037000499.
\<close>

theorem Factor_degenerate:
  assumes "n \<le> 3" "n \<le> mul_int (size_sieve sieve) (size_sieve sieve)"
  shows "Factor sieve n = Some (Inr [n])
           \<and> FactorUnique sieve n = Some (Inr [\<lparr>Factor_u = n, Count_u = 1\<rparr>])
           \<and> (n \<le> 1 \<longrightarrow> \<not> is_prime n)
           \<and> (\<bar>size_sieve sieve\<bar> \<le> 3037000499 \<longrightarrow>
                mul_int (size_sieve sieve) (size_sieve sieve) = size_sieve sieve * size_sieve sieve)"
  using assms by (simp add: Factor_def FactorUnique_def is_prime_def mul_int_exact)

theorem Factor_degenerate_witness:
  "(- 5::int) \<le> 3
     \<and> - 5 \<le> mul_int (size_sieve \<lparr>size_sieve = 0, count_sieve = 0, table_sieve = [0]\<rparr>)
                 (size_sieve \<lparr>size_sieve = 0, count_sieve = 0, table_sieve = [0]\<rparr>)
     \<and> Factor \<lparr>size_sieve = 0, count_sieve = 0, table_sieve = [0]\<rparr> (- 5) = Some (Inr [- 5])
     \<and> Factor \<lparr>size_sieve = 0, count_sieve = 0, table_sieve = [0]\<rparr> 0 = Some (Inr [0])
     \<and> FactorUnique \<lparr>size_sieve = 0, count_sieve = 0, table_sieve = [0]\<rparr> 0
          = Some (Inr [\<lparr>Factor_u = 0, Count_u = 1\<rparr>])
     \<and> \<not> is_prime (- 5) \<and> \<not> is_prime 0"
proof -
  have "mul_int 0 0 = 0" by (simp add: mul_int_def int64_def)
  with Factor_degenerate [of "- 5" "\<lparr>size_sieve = 0, count_sieve = 0, table_sieve = [0]\<rparr>"]
    Factor_degenerate [of 0 "\<lparr>size_sieve = 0, count_sieve = 0, table_sieve = [0]\<rparr>"]
  show ?thesis by simp
qed

text \<open>
  C10 as written fails where the square of the size does not fit 64 bits. For the size
  4294967296 the code's product is 0: 3 is at most 3 and at most the square of the
  size, and both \<open>Factor 3\<close> and \<open>FactorUnique 3\<close> are empty.
\<close>

theorem Factor_size_square_wraps:
  "(3::int) \<le> 3 \<and> (3::int) \<le> 4294967296 * 4294967296
     \<and> mul_int 4294967296 4294967296 = 0
     \<and> New_query 4294967296 Factor 3 = Some (Inr [])
     \<and> New_query 4294967296 FactorUnique 3 = Some (Inr [])"
proof -
  have product: "mul_int 4294967296 4294967296 = 0"
    by (simp add: mul_int_def int64_def)
  from New_result [of 4294967296] obtain sieve where
    sieve: "New 4294967296 = Some (Inr sieve)" "size_sieve sieve = 4294967296"
    by auto
  from sieve(2) product have "Factor sieve 3 = Some (Inr [])" "FactorUnique sieve 3 = Some (Inr [])"
    by (simp_all add: Factor_def FactorUnique_def)
  with sieve(1) product show ?thesis by (simp add: New_query_def)
qed

end
